theory Spec2Isabelle
  imports Main "HOL-Library.Monad_Syntax"
begin

section \<open>The versioned-key resolver of db\_iter.cc\<close>

text \<open>
  A shallow embedding of \<^verbatim>\<open>DBIter\<close> (src/yb/rocksdb/db/db\_iter.cc): the iterator that
  turns a sorted stream of multi-versioned physical entries into the logical key/value
  view of one snapshot. Member variables of the C++ class become fields of a record that
  every function takes and returns; the constructor arguments become a second, immutable
  record. Loops become recursive functions. The two loops that reposition the source with
  \<^verbatim>\<open>Seek\<close> are not structurally decreasing and are defined as partial functions into
  \<open>option\<close>, \<open>None\<close> standing for a call that does not return.
  Statistics, perf counters, logging and key pinning have no effect on the result and are
  left out. \<^verbatim>\<open>assert\<close> is compiled out (the release build).
\<close>

subsection \<open>Physical entries and the internal key format\<close>

datatype ValueType = kTypeDeletion | kTypeValue | kTypeMerge | kTypeSingleDeletion

text \<open>
  Modelled from the spec: the physical entry of section 3 and the internal key encoding of
  dbformat.h, which is not among the sources. An internal key is a user key followed by
  a trailer packing the sequence number and a one-byte type tag. The tag bytes are those
  of the on-disk format: deletion 0 (``the smallest type'', as the comment in
  \<^verbatim>\<open>FindNextUserEntryInternal\<close> says), value 1, merge 2, single deletion 7, which is also
  \<^verbatim>\<open>kValueTypeForSeek\<close>. Any other tag byte makes the entry unparseable.
\<close>

record 'k entry =
  raw_user_key :: 'k
  raw_sequence :: nat
  raw_type :: nat
  raw_value :: string

record 'k ParsedInternalKey =
  user_key :: 'k
  sequence :: nat
  vtype :: ValueType

definition kMaxSequenceNumber :: nat where
  "kMaxSequenceNumber = 72057594037927935"

text \<open>
  Modelled from the spec: the trailer of an internal key has 64 bits, the upper 56 for the
  sequence number and the lower 8 for the tag (\<^verbatim>\<open>PackSequenceAndType\<close> of dbformat.h, which is
  not among the sources; its assertion that the number is at most \<^verbatim>\<open>kMaxSequenceNumber\<close> is
  compiled out). A key built from a 64-bit sequence number keeps its low 56 bits.
\<close>

definition packed_sequence :: "nat \<Rightarrow> nat" where
  "packed_sequence s = s mod 2 ^ 56"

definition type_byte :: "ValueType \<Rightarrow> nat" where
  "type_byte t = (case t of kTypeDeletion \<Rightarrow> 0 | kTypeValue \<Rightarrow> 1 | kTypeMerge \<Rightarrow> 2
                   | kTypeSingleDeletion \<Rightarrow> 7)"

definition kValueTypeForSeek :: ValueType where
  "kValueTypeForSeek = kTypeSingleDeletion"

definition decode_type :: "nat \<Rightarrow> ValueType option" where
  "decode_type b = (if b = 0 then Some kTypeDeletion else if b = 1 then Some kTypeValue
                    else if b = 2 then Some kTypeMerge
                    else if b = 7 then Some kTypeSingleDeletion else None)"

definition ParseInternalKey :: "'k entry \<Rightarrow> 'k ParsedInternalKey option" where
  "ParseInternalKey e =
     (case decode_type (raw_type e) of
        None \<Rightarrow> None
      | Some t \<Rightarrow> Some \<lparr>user_key = raw_user_key e, sequence = raw_sequence e, vtype = t\<rparr>)"

text \<open>
  Modelled from the spec: the order of the source stream (user key ascending, then version
  descending; the internal key comparator of dbformat.h breaks the remaining ties by the
  tag byte, descending). \<open>seek_target_le (k, s, t) e\<close> says that the entry \<open>e\<close> is at or
  after the internal key built from \<open>k\<close>, \<open>s\<close> and \<open>t\<close>.
\<close>

definition seek_target_le :: "'k::linorder \<times> nat \<times> ValueType \<Rightarrow> 'k entry \<Rightarrow> bool" where
  "seek_target_le tgt e =
     (case tgt of (k, s, t) \<Rightarrow>
        k < raw_user_key e \<or>
        (k = raw_user_key e \<and>
          (raw_sequence e < s \<or> (raw_sequence e = s \<and> raw_type e \<le> type_byte t))))"

subsection \<open>Configuration and state\<close>

datatype Direction = kForward | kReverse

datatype Status = OK | Corruption | InvalidArgument

text \<open>
  The constructor arguments. \<open>entries\<close> is the content of the physical entry source, which
  the source keeps unchanged while the iterator lives.

  Modelled from the spec: the merge operator of section 6,
  \<^verbatim>\<open>full_merge(key, base, operands)\<close> (merge\_operator.h is not among the sources). The code
  calls \<^verbatim>\<open>FullMerge(key, existing_value, operands, &saved_value_, logger_)\<close> and drops the flag
  it returns, so \<open>user_merge_operator\<close> is the content the operator leaves in the output
  string, as a function of the key, the base and the operands: it is taken not to read the
  output string, and whether it reports success does not matter to the code.
\<close>

record ('k, 'p) config =
  entries :: "'k entry list"
  sequence_no :: nat
  user_merge_operator :: "('k \<Rightarrow> string option \<Rightarrow> string list \<Rightarrow> string) option"
  iterate_upper_bound :: "'k option"
  prefix_extractor :: "('k \<Rightarrow> 'p) option"
  prefix_same_as_start :: bool

text \<open>
  The member variables. \<open>iter\<close> is the position of the source cursor \<^verbatim>\<open>iter_\<close>, \<open>None\<close> when
  it is not valid. \<open>full_merge_calls\<close> records the arguments of every call of the merge
  operator, in order.
\<close>

record ('k, 'p) dbiter =
  iter :: "nat option"
  direction :: Direction
  valid :: bool
  saved_key :: 'k
  saved_value :: string
  current_entry_is_merged :: bool
  status :: Status
  max_skip :: nat
  prefix_start :: 'p
  merge_operands :: "string list"
  full_merge_calls :: "('k \<times> string option \<times> string list) list"

definition uint64_max :: nat where
  "uint64_max = 18446744073709551615"

subsection \<open>The physical entry source\<close>

text \<open>
  Modelled from the spec: the cursor interface of section 6 (\<^verbatim>\<open>InternalIterator\<close>, whose
  implementations are not among the sources), over the list of entries. \<^verbatim>\<open>Seek\<close> positions
  the cursor at the first entry at or after the target.
\<close>

definition cur :: "('k, 'p) config \<Rightarrow> ('k, 'p) dbiter \<Rightarrow> 'k entry option" where
  "cur cfg st =
     (case iter st of
        None \<Rightarrow> None
      | Some i \<Rightarrow> if i < length (entries cfg) then Some (entries cfg ! i) else None)"

definition iter_Valid :: "('k, 'p) config \<Rightarrow> ('k, 'p) dbiter \<Rightarrow> bool" where
  "iter_Valid cfg st = (cur cfg st \<noteq> None)"

definition iter_value :: "('k, 'p) config \<Rightarrow> ('k, 'p) dbiter \<Rightarrow> string" where
  "iter_value cfg st = (case cur cfg st of None \<Rightarrow> [] | Some e \<Rightarrow> raw_value e)"

definition iter_Next :: "('k, 'p) config \<Rightarrow> ('k, 'p) dbiter \<Rightarrow> ('k, 'p) dbiter" where
  "iter_Next cfg st =
     st\<lparr>iter := (case iter st of
                   None \<Rightarrow> None
                 | Some i \<Rightarrow> if Suc i < length (entries cfg) then Some (Suc i) else None)\<rparr>"

definition iter_Prev :: "('k, 'p) config \<Rightarrow> ('k, 'p) dbiter \<Rightarrow> ('k, 'p) dbiter" where
  "iter_Prev cfg st =
     st\<lparr>iter := (case iter st of
                   None \<Rightarrow> None
                 | Some i \<Rightarrow> if i = 0 \<or> length (entries cfg) \<le> i then None else Some (i - 1))\<rparr>"

definition iter_SeekToFirst :: "('k, 'p) config \<Rightarrow> ('k, 'p) dbiter \<Rightarrow> ('k, 'p) dbiter" where
  "iter_SeekToFirst cfg st = st\<lparr>iter := (if entries cfg = [] then None else Some 0)\<rparr>"

definition iter_SeekToLast :: "('k, 'p) config \<Rightarrow> ('k, 'p) dbiter \<Rightarrow> ('k, 'p) dbiter" where
  "iter_SeekToLast cfg st =
     st\<lparr>iter := (if entries cfg = [] then None else Some (length (entries cfg) - 1))\<rparr>"

fun first_index :: "('a \<Rightarrow> bool) \<Rightarrow> 'a list \<Rightarrow> nat option" where
  "first_index P [] = None"
| "first_index P (x # xs) = (if P x then Some 0 else map_option Suc (first_index P xs))"

definition iter_Seek ::
  "('k::linorder, 'p) config \<Rightarrow> 'k \<times> nat \<times> ValueType \<Rightarrow> ('k, 'p) dbiter \<Rightarrow> ('k, 'p) dbiter" where
  "iter_Seek cfg tgt st = st\<lparr>iter := first_index (seek_target_le tgt) (entries cfg)\<rparr>"

subsection \<open>Accessors\<close>

text \<open>
  \<^verbatim>\<open>key()\<close> and \<^verbatim>\<open>value()\<close> of db\_iter\_impl.h: the saved key, and the payload under the
  cursor when the iterator moves forward and the value was not merged, else the saved value.
  Both assert \<^verbatim>\<open>valid_\<close>. \<^verbatim>\<open>status()\<close> returns \<^verbatim>\<open>status_\<close> unless it is OK, and then the status
  of the source; the source modelled here has no error of its own, so \<^verbatim>\<open>status()\<close> is the
  field \<open>status\<close>.
\<close>

definition key :: "('k, 'p) dbiter \<Rightarrow> 'k" where
  "key st = saved_key st"

definition "value" :: "('k, 'p) config \<Rightarrow> ('k, 'p) dbiter \<Rightarrow> string" where
  "value cfg st =
     (if direction st = kForward \<and> \<not> current_entry_is_merged st then iter_value cfg st
      else saved_value st)"

subsection \<open>Skipping unparseable entries\<close>

text \<open>
  \<^verbatim>\<open>FindParseableKey\<close>, with \<^verbatim>\<open>ParseKey\<close> inlined: a failed parse sets the status. The result
  carries the parsed key \<^verbatim>\<open>ikey\<close> of the entry the cursor stops at, and \<open>None\<close> when the
  cursor ran out of entries (then \<^verbatim>\<open>ikey\<close> holds nothing the code may rely on).
\<close>

function FindParseableKey ::
  "('k, 'p) config \<Rightarrow> Direction \<Rightarrow> ('k, 'p) dbiter \<Rightarrow> 'k ParsedInternalKey option \<times> ('k, 'p) dbiter"
where
  "FindParseableKey cfg d st =
     (case cur cfg st of
        None \<Rightarrow> (None, st)
      | Some e \<Rightarrow>
          (case ParseInternalKey e of
             Some ikey \<Rightarrow> (Some ikey, st)
           | None \<Rightarrow>
               FindParseableKey cfg d
                 (if d = kReverse then iter_Prev cfg (st\<lparr>status := Corruption\<rparr>)
                  else iter_Next cfg (st\<lparr>status := Corruption\<rparr>))))"
  by pat_completeness auto
termination
  by (relation "measure (\<lambda>(cfg, d, st).
        case iter st of None \<Rightarrow> 0
        | Some i \<Rightarrow> if d = kReverse then Suc i else length (entries cfg) - i)")
     (auto simp: cur_def iter_Prev_def iter_Next_def split: option.splits if_splits)

declare FindParseableKey.simps [simp del]

subsection \<open>The merge folder, forward\<close>

definition FullMerge ::
  "('k \<Rightarrow> string option \<Rightarrow> string list \<Rightarrow> string) \<Rightarrow> 'k \<Rightarrow> string option \<Rightarrow> string list
   \<Rightarrow> ('k, 'p) dbiter \<Rightarrow> ('k, 'p) dbiter" where
  "FullMerge merge_op k existing operands st =
     st\<lparr>saved_value := merge_op k existing operands,
        full_merge_calls := full_merge_calls st @ [(k, existing, operands)]\<rparr>"

text \<open>
  The \<^verbatim>\<open>for\<close> loop of \<^verbatim>\<open>MergeValuesNewToOld\<close>, entered after its \<^verbatim>\<open>iter_->Next()\<close>. The deque
  \<^verbatim>\<open>operands\<close> is a list whose head is the front.
\<close>

function MergeValuesLoop ::
  "('k, 'p) config \<Rightarrow> ('k \<Rightarrow> string option \<Rightarrow> string list \<Rightarrow> string) \<Rightarrow> string list
   \<Rightarrow> ('k, 'p) dbiter \<Rightarrow> ('k, 'p) dbiter"
where
  "MergeValuesLoop cfg merge_op operands st =
     (case cur cfg st of
        None \<Rightarrow> FullMerge merge_op (saved_key st) None operands st
      | Some e \<Rightarrow>
          (case ParseInternalKey e of
             None \<Rightarrow> MergeValuesLoop cfg merge_op operands (iter_Next cfg (st\<lparr>status := Corruption\<rparr>))
           | Some ikey \<Rightarrow>
               if user_key ikey \<noteq> saved_key st then
                 FullMerge merge_op (saved_key st) None operands st
               else if vtype ikey = kTypeDeletion \<or> vtype ikey = kTypeSingleDeletion then
                 FullMerge merge_op (saved_key st) None operands (iter_Next cfg st)
               else if vtype ikey = kTypeValue then
                 iter_Next cfg (FullMerge merge_op (user_key ikey) (Some (raw_value e)) operands st)
               else
                 MergeValuesLoop cfg merge_op (raw_value e # operands) (iter_Next cfg st)))"
  by pat_completeness auto
termination
  by (relation "measure (\<lambda>(cfg, merge_op, operands, st).
        case iter st of None \<Rightarrow> 0 | Some i \<Rightarrow> length (entries cfg) - i)")
     (auto simp: cur_def iter_Next_def split: option.splits if_splits)

declare MergeValuesLoop.simps [simp del]

definition MergeValuesNewToOld :: "('k, 'p) config \<Rightarrow> ('k, 'p) dbiter \<Rightarrow> ('k, 'p) dbiter" where
  "MergeValuesNewToOld cfg st =
     (case user_merge_operator cfg of
        None \<Rightarrow> st\<lparr>status := InvalidArgument, valid := False\<rparr>
      | Some merge_op \<Rightarrow> MergeValuesLoop cfg merge_op [iter_value cfg st] (iter_Next cfg st))"

subsection \<open>The forward resolver\<close>

text \<open>
  The end of the \<^verbatim>\<open>do\<close> body of \<^verbatim>\<open>FindNextUserEntryInternal\<close>: reseek to the last possible
  entry of the saved key, or step. The result is the new \<^verbatim>\<open>num_skipped\<close> and the state.
\<close>

definition reseek_or_next ::
  "('k::linorder, 'p) config \<Rightarrow> bool \<Rightarrow> nat \<Rightarrow> ('k, 'p) dbiter \<Rightarrow> nat \<times> ('k, 'p) dbiter" where
  "reseek_or_next cfg skipping num_skipped st =
     (if skipping \<and> max_skip st < num_skipped then
        (0, iter_Seek cfg (saved_key st, 0, kTypeDeletion) st)
      else (num_skipped, iter_Next cfg st))"

text \<open>
  The \<^verbatim>\<open>do ... while (iter_->Valid())\<close> loop, entered at the loop test; its callers enter it
  with a valid cursor. \<^verbatim>\<open>num_skipped\<close> is a \<^verbatim>\<open>uint64_t\<close>.
\<close>

partial_function (option) FindNextUserEntryLoop ::
  "('k::linorder, 'p) config \<Rightarrow> bool \<Rightarrow> nat \<Rightarrow> ('k, 'p) dbiter \<Rightarrow> ('k, 'p) dbiter option"
where
  "FindNextUserEntryLoop cfg skipping num_skipped st =
     (case cur cfg st of
        None \<Rightarrow> Some (st\<lparr>valid := False\<rparr>)
      | Some e \<Rightarrow>
          (case ParseInternalKey e of
             None \<Rightarrow>
               (case reseek_or_next cfg skipping num_skipped (st\<lparr>status := Corruption\<rparr>) of
                  (n, st') \<Rightarrow> FindNextUserEntryLoop cfg skipping n st')
           | Some ikey \<Rightarrow>
               if (case iterate_upper_bound cfg of None \<Rightarrow> False | Some ub \<Rightarrow> ub \<le> user_key ikey)
               then Some (st\<lparr>valid := False\<rparr>)
               else if sequence ikey \<le> sequence_no cfg then
                 (if skipping \<and> user_key ikey \<le> saved_key st then
                    (case reseek_or_next cfg skipping ((num_skipped + 1) mod 2 ^ 64) st of
                       (n, st') \<Rightarrow> FindNextUserEntryLoop cfg skipping n st')
                  else
                    (case vtype ikey of
                       kTypeValue \<Rightarrow> Some (st\<lparr>valid := True, saved_key := user_key ikey\<rparr>)
                     | kTypeMerge \<Rightarrow>
                         Some (MergeValuesNewToOld cfg
                                 (st\<lparr>saved_key := user_key ikey,
                                     current_entry_is_merged := True, valid := True\<rparr>))
                     | _ \<Rightarrow>
                         (case reseek_or_next cfg True 0 (st\<lparr>saved_key := user_key ikey\<rparr>) of
                            (n, st') \<Rightarrow> FindNextUserEntryLoop cfg True n st')))
               else
                 (case reseek_or_next cfg skipping num_skipped st of
                    (n, st') \<Rightarrow> FindNextUserEntryLoop cfg skipping n st')))"

declare FindNextUserEntryLoop.simps [code]

definition FindNextUserEntry ::
  "('k::linorder, 'p) config \<Rightarrow> bool \<Rightarrow> ('k, 'p) dbiter \<Rightarrow> ('k, 'p) dbiter option" where
  "FindNextUserEntry cfg skipping st =
     FindNextUserEntryLoop cfg skipping 0 (st\<lparr>current_entry_is_merged := False\<rparr>)"


subsection \<open>Where the cursor stands after skipping unparseable entries\<close>

lemma FindParseableKey_Some:
  "FindParseableKey cfg d st = (Some ikey, st') \<Longrightarrow>
     \<exists>e. cur cfg st' = Some e \<and> ParseInternalKey e = Some ikey"
proof (induction cfg d st rule: FindParseableKey.induct)
  case (1 cfg d st)
  show ?case
  proof (cases "cur cfg st")
    case None
    with 1(2) show ?thesis by (simp add: FindParseableKey.simps [of cfg _ st])
  next
    case (Some e)
    show ?thesis
    proof (cases "ParseInternalKey e")
      case (Some ik)
      with \<open>cur cfg st = Some e\<close> 1(2) show ?thesis
        by (simp add: FindParseableKey.simps [of cfg _ st])
    next
      case None
      with \<open>cur cfg st = Some e\<close> 1(2) 1(1) [OF \<open>cur cfg st = Some e\<close> None]
      show ?thesis
        by (simp add: FindParseableKey.simps [of cfg _ st])
    qed
  qed
qed

lemma FindParseableKey_forward_pos:
  "FindParseableKey cfg d st = (r, st') \<Longrightarrow> d = kForward \<Longrightarrow> iter st' = Some j \<Longrightarrow>
     \<exists>i. iter st = Some i \<and> i \<le> j"
proof (induction cfg d st rule: FindParseableKey.induct)
  case (1 cfg d st)
  show ?case
  proof (cases "cur cfg st")
    case None
    with 1 show ?thesis by (simp add: FindParseableKey.simps [of cfg _ st])
  next
    case (Some e)
    show ?thesis
    proof (cases "ParseInternalKey e")
      case (Some ikey)
      with \<open>cur cfg st = Some e\<close> 1 show ?thesis
        by (simp add: FindParseableKey.simps [of cfg _ st])
    next
      case None
      with \<open>cur cfg st = Some e\<close> 1(2,3)
      have "FindParseableKey cfg d (if d = kReverse then iter_Prev cfg (st\<lparr>status := Corruption\<rparr>)
                  else iter_Next cfg (st\<lparr>status := Corruption\<rparr>)) = (r, st')"
        by (simp add: FindParseableKey.simps [of cfg _ st])
      from 1(1) [OF \<open>cur cfg st = Some e\<close> None this 1(3) 1(4)] 1(3)
      obtain i where "iter (iter_Next cfg (st\<lparr>status := Corruption\<rparr>)) = Some i" "i \<le> j"
        by auto
      then show ?thesis
        by (auto simp: iter_Next_def split: option.splits if_splits)
    qed
  qed
qed

lemma FindParseableKey_reverse_pos:
  "FindParseableKey cfg d st = (r, st') \<Longrightarrow> d = kReverse \<Longrightarrow> iter st' = Some j \<Longrightarrow>
     \<exists>i. iter st = Some i \<and> j \<le> i"
proof (induction cfg d st rule: FindParseableKey.induct)
  case (1 cfg d st)
  show ?case
  proof (cases "cur cfg st")
    case None
    with 1 show ?thesis by (simp add: FindParseableKey.simps [of cfg _ st])
  next
    case (Some e)
    show ?thesis
    proof (cases "ParseInternalKey e")
      case (Some ikey)
      with \<open>cur cfg st = Some e\<close> 1 show ?thesis
        by (simp add: FindParseableKey.simps [of cfg _ st])
    next
      case None
      with \<open>cur cfg st = Some e\<close> 1(2,3)
      have "FindParseableKey cfg d (if d = kReverse then iter_Prev cfg (st\<lparr>status := Corruption\<rparr>)
                  else iter_Next cfg (st\<lparr>status := Corruption\<rparr>)) = (r, st')"
        by (simp add: FindParseableKey.simps [of cfg _ st])
      from 1(1) [OF \<open>cur cfg st = Some e\<close> None this 1(3) 1(4)] 1(3)
      obtain i where "iter (iter_Prev cfg (st\<lparr>status := Corruption\<rparr>)) = Some i" "j \<le> i"
        by auto
      then show ?thesis
        by (auto simp: iter_Prev_def split: option.splits if_splits)
    qed
  qed
qed

lemma FindParseableKey_after_Next:
  assumes "FindParseableKey cfg kForward (iter_Next cfg st) = (Some ikey', st')"
  shows "\<exists>i j. iter st = Some i \<and> iter st' = Some j \<and> i < j \<and> j < length (entries cfg)"
proof -
  from FindParseableKey_Some [OF assms] obtain j where j: "iter st' = Some j" "j < length (entries cfg)"
    by (auto simp: cur_def split: option.splits if_splits)
  from FindParseableKey_forward_pos [OF assms refl j(1)]
  obtain i where "iter (iter_Next cfg st) = Some i" "i \<le> j" by auto
  with j show ?thesis
    by (auto simp: iter_Next_def split: option.splits if_splits)
qed

lemma FindParseableKey_after_Prev:
  assumes "FindParseableKey cfg kReverse (iter_Prev cfg st) = (Some ikey', st')"
  shows "\<exists>i j. iter st = Some i \<and> iter st' = Some j \<and> j < i \<and> i < length (entries cfg)"
proof -
  from FindParseableKey_Some [OF assms] obtain j where j: "iter st' = Some j" "j < length (entries cfg)"
    by (auto simp: cur_def split: option.splits if_splits)
  from FindParseableKey_reverse_pos [OF assms refl j(1)]
  obtain i where "iter (iter_Prev cfg st) = Some i" "j \<le> i" by auto
  with j show ?thesis
    by (auto simp: iter_Prev_def split: option.splits if_splits)
qed

subsection \<open>Stepping forward\<close>

text \<open>
  The \<^verbatim>\<open>while\<close> loop of \<^verbatim>\<open>FindNextUserKey\<close>, entered with a valid cursor on the entry that
  parsed to \<^verbatim>\<open>ikey\<close>; it ends when the cursor runs out of entries.
\<close>

function FindNextUserKeyLoop ::
  "('k, 'p) config \<Rightarrow> 'k ParsedInternalKey \<Rightarrow> ('k, 'p) dbiter \<Rightarrow> ('k, 'p) dbiter"
where
  "FindNextUserKeyLoop cfg ikey st =
     (if user_key ikey \<noteq> saved_key st then
        (case FindParseableKey cfg kForward (iter_Next cfg st) of
           (None, st') \<Rightarrow> st'
         | (Some ikey', st') \<Rightarrow> FindNextUserKeyLoop cfg ikey' st')
      else st)"
  by pat_completeness auto
termination
  by (relation "measure (\<lambda>(cfg, ikey, st).
        case iter st of None \<Rightarrow> 0 | Some i \<Rightarrow> length (entries cfg) - i)")
     (auto dest!: sym [of "(_, _)" "FindParseableKey _ _ _"] FindParseableKey_after_Next)

declare FindNextUserKeyLoop.simps [simp del]

definition FindNextUserKey :: "('k, 'p) config \<Rightarrow> ('k, 'p) dbiter \<Rightarrow> ('k, 'p) dbiter" where
  "FindNextUserKey cfg st =
     (if \<not> iter_Valid cfg st then st
      else (case FindParseableKey cfg kForward st of
              (None, st') \<Rightarrow> st'
            | (Some ikey, st') \<Rightarrow> FindNextUserKeyLoop cfg ikey st'))"

text \<open>The prefix test that ends \<^verbatim>\<open>Next\<close> and \<^verbatim>\<open>Prev\<close>.\<close>

definition prefix_check :: "('k, 'p) config \<Rightarrow> ('k, 'p) dbiter \<Rightarrow> ('k, 'p) dbiter" where
  "prefix_check cfg st =
     (case prefix_extractor cfg of
        None \<Rightarrow> st
      | Some transform \<Rightarrow>
          if valid st \<and> prefix_same_as_start cfg \<and> transform (saved_key st) \<noteq> prefix_start st
          then st\<lparr>valid := False\<rparr> else st)"

definition Next :: "('k::linorder, 'p) config \<Rightarrow> ('k, 'p) dbiter \<Rightarrow> ('k, 'p) dbiter option" where
  "Next cfg st =
     (let st1 =
        (if direction st = kReverse then
           (let st' = (FindNextUserKey cfg st)\<lparr>direction := kForward\<rparr>
            in if \<not> iter_Valid cfg st' then iter_SeekToFirst cfg st' else st')
         else if iter_Valid cfg st \<and> \<not> current_entry_is_merged st then iter_Next cfg st
         else st)
      in if \<not> iter_Valid cfg st1 then Some (st1\<lparr>valid := False\<rparr>)
         else map_option (prefix_check cfg) (FindNextUserEntry cfg True st1))"

subsection \<open>Positioning forward\<close>

text \<open>
  \<^verbatim>\<open>Seek\<close> keeps the internal key of the target in \<^verbatim>\<open>saved_key_\<close> while it positions the
  source; the resolver then runs without skipping and reads \<^verbatim>\<open>saved_key_\<close> only after it has
  stored a user key there, so the field holds the user key of the target here.
\<close>

definition Seek ::
  "('k::linorder, 'p) config \<Rightarrow> 'k \<Rightarrow> ('k, 'p) dbiter \<Rightarrow> ('k, 'p) dbiter option" where
  "Seek cfg target st =
     (let st1 = iter_Seek cfg (target, packed_sequence (sequence_no cfg), kValueTypeForSeek)
                  (st\<lparr>saved_key := target\<rparr>)
      in map_option
           (\<lambda>s. case prefix_extractor cfg of
                  None \<Rightarrow> s
                | Some transform \<Rightarrow>
                    if valid s \<and> prefix_same_as_start cfg then s\<lparr>prefix_start := transform target\<rparr>
                    else s)
           (if iter_Valid cfg st1 then
              FindNextUserEntry cfg False (st1\<lparr>direction := kForward, saved_value := []\<rparr>)
            else Some (st1\<lparr>valid := False\<rparr>)))"

definition set_prefix_start :: "('k, 'p) config \<Rightarrow> ('k, 'p) dbiter \<Rightarrow> ('k, 'p) dbiter" where
  "set_prefix_start cfg s =
     (case prefix_extractor cfg of
        None \<Rightarrow> s
      | Some transform \<Rightarrow>
          if valid s \<and> prefix_same_as_start cfg then s\<lparr>prefix_start := transform (saved_key s)\<rparr>
          else s)"

definition SeekToFirst :: "('k::linorder, 'p) config \<Rightarrow> ('k, 'p) dbiter \<Rightarrow> ('k, 'p) dbiter option" where
  "SeekToFirst cfg st =
     (let st1 = iter_SeekToFirst cfg
                  (st\<lparr>max_skip := (case prefix_extractor cfg of None \<Rightarrow> max_skip st
                                    | Some _ \<Rightarrow> uint64_max),
                      direction := kForward, saved_value := []\<rparr>)
      in map_option (set_prefix_start cfg)
           (if iter_Valid cfg st1 then FindNextUserEntry cfg False st1
            else Some (st1\<lparr>valid := False\<rparr>)))"

subsection \<open>The backward resolver\<close>

text \<open>
  The backward resolver calls the merge operator without testing the pointer (the linear
  path asserts that it is set), and \<^verbatim>\<open>FindValueForCurrentKeyUsingSeek\<close> reads \<^verbatim>\<open>ikey\<close>
  without testing that the cursor is valid. Both are faults of the process, not states of
  the iterator.
\<close>

datatype fault = NullMergeOperator | UninitializedKey

definition FullMergeChecked ::
  "('k, 'p) config \<Rightarrow> 'k \<Rightarrow> string option \<Rightarrow> string list \<Rightarrow> ('k, 'p) dbiter
   \<Rightarrow> fault + ('k, 'p) dbiter" where
  "FullMergeChecked cfg k existing operands st =
     (case user_merge_operator cfg of
        None \<Rightarrow> Inl NullMergeOperator
      | Some merge_op \<Rightarrow> Inr (FullMerge merge_op k existing operands st))"

text \<open>
  The \<^verbatim>\<open>while\<close> loop of \<^verbatim>\<open>FindValueForCurrentKeyUsingSeek\<close>, entered with a valid cursor on
  the entry that parsed to \<^verbatim>\<open>ikey\<close>. The result is the deque of operands, the last parsed
  key (\<open>None\<close> when the cursor ran out of entries) and the state.
\<close>

function UsingSeekLoop ::
  "('k, 'p) config \<Rightarrow> string list \<Rightarrow> 'k ParsedInternalKey \<Rightarrow> ('k, 'p) dbiter
   \<Rightarrow> string list \<times> 'k ParsedInternalKey option \<times> ('k, 'p) dbiter"
where
  "UsingSeekLoop cfg operands ikey st =
     (if user_key ikey = saved_key st \<and> vtype ikey = kTypeMerge then
        (case FindParseableKey cfg kForward (iter_Next cfg st) of
           (None, st') \<Rightarrow> (iter_value cfg st # operands, None, st')
         | (Some ikey', st') \<Rightarrow> UsingSeekLoop cfg (iter_value cfg st # operands) ikey' st')
      else (operands, Some ikey, st))"
  by pat_completeness auto
termination
  by (relation "measure (\<lambda>(cfg, operands, ikey, st).
        case iter st of None \<Rightarrow> 0 | Some i \<Rightarrow> length (entries cfg) - i)")
     (auto dest!: sym [of "(_, _)" "FindParseableKey _ _ _"] FindParseableKey_after_Next)

declare UsingSeekLoop.simps [simp del]

definition FindValueForCurrentKeyUsingSeek ::
  "('k::linorder, 'p) config \<Rightarrow> ('k, 'p) dbiter \<Rightarrow> fault + bool \<times> ('k, 'p) dbiter" where
  "FindValueForCurrentKeyUsingSeek cfg st =
     (let last_key = (saved_key st, packed_sequence (sequence_no cfg), kValueTypeForSeek)
      in case FindParseableKey cfg kForward (iter_Seek cfg last_key st) of
           (None, st1) \<Rightarrow> Inl UninitializedKey
         | (Some ikey, st1) \<Rightarrow>
             if vtype ikey = kTypeValue then
               Inr (True, st1\<lparr>saved_value := iter_value cfg st1, valid := True\<rparr>)
             else if vtype ikey = kTypeDeletion \<or> vtype ikey = kTypeSingleDeletion then
               Inr (False, st1\<lparr>valid := False\<rparr>)
             else
               (case UsingSeekLoop cfg [] ikey st1 of
                  (operands, last_ikey, st2) \<Rightarrow>
                    if last_ikey = None \<or> user_key (the last_ikey) \<noteq> saved_key st2
                       \<or> vtype (the last_ikey) = kTypeDeletion \<or> vtype (the last_ikey) = kTypeSingleDeletion
                    then
                      (case FullMergeChecked cfg (saved_key st2) None operands st2 of
                         Inl f \<Rightarrow> Inl f
                       | Inr st3 \<Rightarrow>
                           Inr (True,
                             (if last_ikey = None \<or> user_key (the last_ikey) \<noteq> saved_key st3
                              then iter_Seek cfg last_key st3 else st3)\<lparr>valid := True\<rparr>))
                    else
                      (case FullMergeChecked cfg (saved_key st2) (Some (iter_value cfg st2))
                              operands st2 of
                         Inl f \<Rightarrow> Inl f
                       | Inr st3 \<Rightarrow> Inr (True, st3\<lparr>valid := True\<rparr>))))"

text \<open>The \<^verbatim>\<open>switch\<close> that ends \<^verbatim>\<open>FindValueForCurrentKey\<close>.\<close>

definition FindValueForCurrentKeyFinish ::
  "('k, 'p) config \<Rightarrow> ValueType \<Rightarrow> ValueType \<Rightarrow> ('k, 'p) dbiter \<Rightarrow> fault + bool \<times> ('k, 'p) dbiter"
where
  "FindValueForCurrentKeyFinish cfg last_not_merge_type last_key_entry_type st =
     (case last_key_entry_type of
        kTypeDeletion \<Rightarrow> Inr (False, st\<lparr>valid := False\<rparr>)
      | kTypeSingleDeletion \<Rightarrow> Inr (False, st\<lparr>valid := False\<rparr>)
      | kTypeMerge \<Rightarrow>
          (case (if last_not_merge_type = kTypeDeletion then
                   FullMergeChecked cfg (saved_key st) None (merge_operands st) st
                 else
                   FullMergeChecked cfg (saved_key st) (Some (saved_value st))
                     (merge_operands st) st) of
             Inl f \<Rightarrow> Inl f
           | Inr st' \<Rightarrow> Inr (True, st'\<lparr>valid := True\<rparr>))
      | kTypeValue \<Rightarrow> Inr (True, st\<lparr>valid := True\<rparr>))"

text \<open>The \<^verbatim>\<open>switch\<close> in the loop of \<^verbatim>\<open>FindValueForCurrentKey\<close>.\<close>

definition note_entry :: "('k, 'p) config \<Rightarrow> ValueType \<Rightarrow> ('k, 'p) dbiter \<Rightarrow> ('k, 'p) dbiter" where
  "note_entry cfg t st =
     (case t of
        kTypeValue \<Rightarrow> st\<lparr>merge_operands := [], saved_value := iter_value cfg st\<rparr>
      | kTypeMerge \<Rightarrow> st\<lparr>merge_operands := merge_operands st @ [iter_value cfg st]\<rparr>
      | _ \<Rightarrow> st\<lparr>merge_operands := []\<rparr>)"

lemma iter_note_entry: "iter (note_entry cfg t st) = iter st"
  by (simp add: note_entry_def split: ValueType.splits)

lemma FindParseableKey_after_Prev_measure:
  assumes "FindParseableKey cfg kReverse (iter_Prev cfg st) = (x, y)"
  shows "(case x of None \<Rightarrow> 0 | Some _ \<Rightarrow> Suc (case iter y of None \<Rightarrow> 0 | Some i \<Rightarrow> Suc i))
           < Suc (case iter st of None \<Rightarrow> 0 | Some i \<Rightarrow> Suc i)"
proof (cases x)
  case None
  then show ?thesis by simp
next
  case (Some ik)
  with assms FindParseableKey_after_Prev [of cfg st ik y] show ?thesis by auto
qed

text \<open>
  The \<^verbatim>\<open>while\<close> loop of \<^verbatim>\<open>FindValueForCurrentKey\<close>; \<open>ikey\<close> is \<open>None\<close> when the cursor is
  not valid. \<^verbatim>\<open>num_skipped\<close> is a \<^verbatim>\<open>size_t\<close>.
\<close>

function FindValueForCurrentKeyLoop ::
  "('k::linorder, 'p) config \<Rightarrow> ValueType \<Rightarrow> ValueType \<Rightarrow> nat \<Rightarrow> 'k ParsedInternalKey option
   \<Rightarrow> ('k, 'p) dbiter \<Rightarrow> fault + bool \<times> ('k, 'p) dbiter"
where
  "FindValueForCurrentKeyLoop cfg last_not_merge_type last_key_entry_type num_skipped ikey_opt st =
     (case ikey_opt of
        None \<Rightarrow> FindValueForCurrentKeyFinish cfg last_not_merge_type last_key_entry_type st
      | Some ikey \<Rightarrow>
          if sequence ikey \<le> sequence_no cfg \<and> user_key ikey = saved_key st then
            (if max_skip st \<le> num_skipped then FindValueForCurrentKeyUsingSeek cfg st
             else
               (case FindParseableKey cfg kReverse (iter_Prev cfg (note_entry cfg (vtype ikey) st)) of
                  (ikey', st') \<Rightarrow>
                    FindValueForCurrentKeyLoop cfg
                      (if vtype ikey = kTypeMerge then last_not_merge_type else vtype ikey)
                      (vtype ikey) ((num_skipped + 1) mod 2 ^ 64) ikey' st'))
          else FindValueForCurrentKeyFinish cfg last_not_merge_type last_key_entry_type st)"
  by pat_completeness auto
termination
proof (relation "measure (\<lambda>(cfg, lnm, lke, n, ikey_opt, st).
        case ikey_opt of None \<Rightarrow> 0
        | Some _ \<Rightarrow> Suc (case iter st of None \<Rightarrow> 0 | Some i \<Rightarrow> Suc i))", goal_cases)
  case 1
  show ?case by simp
next
  case (2 cfg lnm lke n ikey_opt st ikey ikey' st')
  from 2(4) have "FindParseableKey cfg kReverse (iter_Prev cfg (note_entry cfg (vtype ikey) st))
                   = (ikey', st')"
    by simp
  from FindParseableKey_after_Prev_measure [OF this] 2(1) show ?case
    by (simp add: iter_note_entry)
qed

declare FindValueForCurrentKeyLoop.simps [simp del]

definition FindValueForCurrentKey ::
  "('k::linorder, 'p) config \<Rightarrow> ('k, 'p) dbiter \<Rightarrow> fault + bool \<times> ('k, 'p) dbiter" where
  "FindValueForCurrentKey cfg st =
     (case FindParseableKey cfg kReverse (st\<lparr>merge_operands := []\<rparr>) of
        (ikey, st') \<Rightarrow> FindValueForCurrentKeyLoop cfg kTypeDeletion kTypeDeletion 0 ikey st')"

text \<open>
  The \<^verbatim>\<open>while\<close> loop of \<^verbatim>\<open>FindPrevUserKey\<close>, entered with a valid cursor on the entry that
  parsed to \<^verbatim>\<open>ikey\<close>. \<^verbatim>\<open>num_skipped\<close> is a \<^verbatim>\<open>size_t\<close>.
\<close>

partial_function (option) FindPrevUserKeyLoop ::
  "('k::linorder, 'p) config \<Rightarrow> nat \<Rightarrow> 'k ParsedInternalKey \<Rightarrow> ('k, 'p) dbiter
   \<Rightarrow> ('k, 'p) dbiter option"
where
  "FindPrevUserKeyLoop cfg num_skipped ikey st =
     (if user_key ikey = saved_key st
         \<or> (saved_key st < user_key ikey \<and> sequence_no cfg < sequence ikey) then
        (case (if user_key ikey = saved_key st then
                 (if max_skip st \<le> num_skipped then
                    (0, iter_Seek cfg (saved_key st, kMaxSequenceNumber, kValueTypeForSeek) st)
                  else ((num_skipped + 1) mod 2 ^ 64, st))
               else (num_skipped, st)) of
           (n, st1) \<Rightarrow>
             (case FindParseableKey cfg kReverse (iter_Prev cfg st1) of
                (None, st2) \<Rightarrow> Some st2
              | (Some ikey', st2) \<Rightarrow> FindPrevUserKeyLoop cfg n ikey' st2))
      else Some st)"

declare FindPrevUserKeyLoop.simps [code]

definition FindPrevUserKey ::
  "('k::linorder, 'p) config \<Rightarrow> ('k, 'p) dbiter \<Rightarrow> ('k, 'p) dbiter option" where
  "FindPrevUserKey cfg st =
     (if \<not> iter_Valid cfg st then Some st
      else (case FindParseableKey cfg kReverse st of
              (None, st') \<Rightarrow> Some st'
            | (Some ikey, st') \<Rightarrow> FindPrevUserKeyLoop cfg 0 ikey st'))"

text \<open>The \<^verbatim>\<open>while\<close> loop of \<^verbatim>\<open>ReverseToBackward\<close>, entered with a valid cursor.\<close>

function ReverseToBackwardLoop ::
  "('k::linorder, 'p) config \<Rightarrow> 'k ParsedInternalKey \<Rightarrow> ('k, 'p) dbiter \<Rightarrow> ('k, 'p) dbiter"
where
  "ReverseToBackwardLoop cfg ikey st =
     (if saved_key st < user_key ikey then
        (case FindParseableKey cfg kReverse (iter_Prev cfg st) of
           (None, st') \<Rightarrow> st'
         | (Some ikey', st') \<Rightarrow> ReverseToBackwardLoop cfg ikey' st')
      else st)"
  by pat_completeness auto
termination
  by (relation "measure (\<lambda>(cfg, ikey, st). case iter st of None \<Rightarrow> 0 | Some i \<Rightarrow> Suc i)")
     (auto dest!: sym [of "(_, _)" "FindParseableKey _ _ _"] FindParseableKey_after_Prev)

declare ReverseToBackwardLoop.simps [simp del]

definition ReverseToBackward ::
  "('k::linorder, 'p) config \<Rightarrow> ('k, 'p) dbiter \<Rightarrow> ('k, 'p) dbiter option" where
  "ReverseToBackward cfg st =
     map_option (\<lambda>s. s\<lparr>direction := kReverse\<rparr>)
       (FindPrevUserKey cfg
          (if current_entry_is_merged st then
             (case FindParseableKey cfg kReverse
                     (if \<not> iter_Valid cfg st then iter_SeekToLast cfg st else st) of
                (None, st') \<Rightarrow> st'
              | (Some ikey, st') \<Rightarrow> ReverseToBackwardLoop cfg ikey st')
           else st))"

text \<open>
  The \<^verbatim>\<open>while\<close> loop of \<^verbatim>\<open>PrevInternal\<close>. After \<^verbatim>\<open>FindParseableKey\<close> has run out of
  entries, \<^verbatim>\<open>FindPrevUserKey\<close> returns at once, so the comparison of the stale \<^verbatim>\<open>ikey\<close>
  there has no effect.
\<close>

partial_function (option) PrevInternalLoop ::
  "('k::linorder, 'p) config \<Rightarrow> ('k, 'p) dbiter \<Rightarrow> (fault + ('k, 'p) dbiter) option"
where
  "PrevInternalLoop cfg st =
     (case cur cfg st of
        None \<Rightarrow> Some (Inr (st\<lparr>valid := False\<rparr>))
      | Some e \<Rightarrow>
          (case FindValueForCurrentKey cfg (st\<lparr>saved_key := raw_user_key e\<rparr>) of
             Inl f \<Rightarrow> Some (Inl f)
           | Inr (found, st1) \<Rightarrow>
               if found then
                 (if \<not> iter_Valid cfg st1 then Some (Inr (st1\<lparr>valid := True\<rparr>))
                  else
                    (case FindParseableKey cfg kReverse (st1\<lparr>valid := True\<rparr>) of
                       (None, st2) \<Rightarrow> Some (Inr st2)
                     | (Some ikey, st2) \<Rightarrow>
                         if user_key ikey = saved_key st2
                         then map_option Inr (FindPrevUserKey cfg st2)
                         else Some (Inr st2)))
               else if \<not> iter_Valid cfg st1 then Some (Inr (st1\<lparr>valid := False\<rparr>))
               else
                 (case FindParseableKey cfg kReverse st1 of
                    (None, st2) \<Rightarrow> Some (Inr (st2\<lparr>valid := False\<rparr>))
                  | (Some ikey, st2) \<Rightarrow>
                      if user_key ikey = saved_key st2 then
                        (case FindPrevUserKey cfg st2 of
                           None \<Rightarrow> None
                         | Some st3 \<Rightarrow> PrevInternalLoop cfg st3)
                      else PrevInternalLoop cfg st2)))"

declare PrevInternalLoop.simps [code]

definition PrevInternal ::
  "('k::linorder, 'p) config \<Rightarrow> ('k, 'p) dbiter \<Rightarrow> (fault + ('k, 'p) dbiter) option" where
  "PrevInternal cfg st =
     (if \<not> iter_Valid cfg st then Some (Inr (st\<lparr>valid := False\<rparr>)) else PrevInternalLoop cfg st)"

definition Prev ::
  "('k::linorder, 'p) config \<Rightarrow> ('k, 'p) dbiter \<Rightarrow> (fault + ('k, 'p) dbiter) option" where
  "Prev cfg st =
     (case (if direction st = kForward then ReverseToBackward cfg st else Some st) of
        None \<Rightarrow> None
      | Some st1 \<Rightarrow> map_option (map_sum id (prefix_check cfg)) (PrevInternal cfg st1))"

subsection \<open>Positioning backward\<close>

definition SeekToLast ::
  "('k::linorder, 'p) config \<Rightarrow> ('k, 'p) dbiter \<Rightarrow> (fault + ('k, 'p) dbiter) option" where
  "SeekToLast cfg st =
     (let st1 = iter_SeekToLast cfg
                  (st\<lparr>max_skip := (case prefix_extractor cfg of None \<Rightarrow> max_skip st
                                    | Some _ \<Rightarrow> uint64_max),
                      direction := kReverse, saved_value := []\<rparr>);
          bounded =
            (case iterate_upper_bound cfg of
               None \<Rightarrow> Inr st1
             | Some ub \<Rightarrow>
                 if \<not> iter_Valid cfg st1 then Inr st1
                 else
                   (let st2 = iter_Seek cfg (ub, kMaxSequenceNumber, kValueTypeForSeek)
                                (st1\<lparr>saved_key := ub\<rparr>)
                    in if \<not> iter_Valid cfg st2 then Inr (iter_SeekToLast cfg st2)
                       else if \<not> iter_Valid cfg (iter_Prev cfg st2)
                       then Inl ((iter_Prev cfg st2)\<lparr>valid := False\<rparr>)
                       else Inr (iter_Prev cfg st2)))
      in case bounded of
           Inl returned \<Rightarrow> Some (Inr returned)
         | Inr st3 \<Rightarrow> map_option (map_sum id (set_prefix_start cfg)) (PrevInternal cfg st3))"

subsection \<open>Full scans\<close>

text \<open>
  The caller's loops: position, then step while the iterator is valid, collecting
  \<^verbatim>\<open>key()\<close> and \<^verbatim>\<open>value()\<close>. The result also carries the last state, for \<^verbatim>\<open>status()\<close>.
\<close>

partial_function (option) collect_forward ::
  "('k::linorder, 'p) config \<Rightarrow> ('k, 'p) dbiter \<Rightarrow> (('k \<times> string) list \<times> ('k, 'p) dbiter) option"
where
  "collect_forward cfg st =
     (if valid st then
        (case Next cfg st of
           None \<Rightarrow> None
         | Some st' \<Rightarrow>
             Option.bind (collect_forward cfg st')
               (\<lambda>(kvs, fin). Some ((key st, value cfg st) # kvs, fin)))
      else Some ([], st))"

declare collect_forward.simps [code]

definition forward_scan ::
  "('k::linorder, 'p) config \<Rightarrow> ('k, 'p) dbiter \<Rightarrow> (('k \<times> string) list \<times> ('k, 'p) dbiter) option"
where
  "forward_scan cfg st =
     (case SeekToFirst cfg st of None \<Rightarrow> None | Some st' \<Rightarrow> collect_forward cfg st')"

partial_function (option) collect_backward ::
  "('k::linorder, 'p) config \<Rightarrow> ('k, 'p) dbiter
   \<Rightarrow> (fault + ('k \<times> string) list \<times> ('k, 'p) dbiter) option"
where
  "collect_backward cfg st =
     (if valid st then
        (case Prev cfg st of
           None \<Rightarrow> None
         | Some (Inl f) \<Rightarrow> Some (Inl f)
         | Some (Inr st') \<Rightarrow>
             Option.bind (collect_backward cfg st')
               (\<lambda>r. Some (map_sum id (\<lambda>(kvs, fin). ((key st, value cfg st) # kvs, fin)) r)))
      else Some (Inr ([], st)))"

declare collect_backward.simps [code]

definition backward_scan ::
  "('k::linorder, 'p) config \<Rightarrow> ('k, 'p) dbiter
   \<Rightarrow> (fault + ('k \<times> string) list \<times> ('k, 'p) dbiter) option"
where
  "backward_scan cfg st =
     (case SeekToLast cfg st of
        None \<Rightarrow> None
      | Some (Inl f) \<Rightarrow> Some (Inl f)
      | Some (Inr st') \<Rightarrow> collect_backward cfg st')"

section \<open>Running the model\<close>

text \<open>
  The defining equations, for evaluating the model on concrete streams with the simplifier.
\<close>

lemmas cursor_defs =
  cur_def iter_Valid_def iter_value_def iter_Next_def iter_Prev_def iter_SeekToFirst_def
  iter_SeekToLast_def iter_Seek_def seek_target_le_def type_byte_def kValueTypeForSeek_def
  kMaxSequenceNumber_def uint64_max_def packed_sequence_def

lemmas source_defs = cursor_defs decode_type_def ParseInternalKey_def

lemmas dbiter_defs =
  key_def value_def FullMerge_def MergeValuesNewToOld_def reseek_or_next_def
  FindNextUserEntry_def FindNextUserKey_def prefix_check_def Next_def Seek_def
  set_prefix_start_def SeekToFirst_def FullMergeChecked_def FindValueForCurrentKeyUsingSeek_def
  FindValueForCurrentKeyFinish_def note_entry_def FindValueForCurrentKey_def
  FindPrevUserKey_def ReverseToBackward_def PrevInternal_def Prev_def SeekToLast_def
  forward_scan_def backward_scan_def

lemmas loop_simps =
  FindParseableKey.simps MergeValuesLoop.simps FindNextUserEntryLoop.simps
  FindNextUserKeyLoop.simps UsingSeekLoop.simps FindValueForCurrentKeyLoop.simps
  FindPrevUserKeyLoop.simps ReverseToBackwardLoop.simps PrevInternalLoop.simps
  collect_forward.simps collect_backward.simps

text \<open>
  Test fixtures: the concatenation merge operator of section 8 of the specification (the base
  value, when there is one, followed by the operands in the order given), a configuration
  without bounds over natural-number keys, and a newly constructed iterator (invalid, forward,
  status OK) with a given reseek threshold.
\<close>

definition concat_merge_operator :: "nat \<Rightarrow> string option \<Rightarrow> string list \<Rightarrow> string" where
  "concat_merge_operator k existing operands =
     (case existing of None \<Rightarrow> [] | Some v \<Rightarrow> v) @ concat operands"

definition plain_config :: "nat entry list \<Rightarrow> nat \<Rightarrow> (nat, nat) config" where
  "plain_config es snapshot =
     \<lparr>entries = es, sequence_no = snapshot, user_merge_operator = Some concat_merge_operator,
      iterate_upper_bound = None, prefix_extractor = None, prefix_same_as_start = False\<rparr>"

definition new_iterator :: "nat \<Rightarrow> (nat, nat) dbiter" where
  "new_iterator threshold =
     \<lparr>iter = None, direction = kForward, valid = False, saved_key = 0, saved_value = [],
      current_entry_is_merged = False, status = OK, max_skip = threshold, prefix_start = 0,
      merge_operands = [], full_merge_calls = []\<rparr>"

definition put :: "nat \<Rightarrow> nat \<Rightarrow> string \<Rightarrow> nat entry" where
  "put k s v = \<lparr>raw_user_key = k, raw_sequence = s, raw_type = 1, raw_value = v\<rparr>"

definition merge :: "nat \<Rightarrow> nat \<Rightarrow> string \<Rightarrow> nat entry" where
  "merge k s v = \<lparr>raw_user_key = k, raw_sequence = s, raw_type = 2, raw_value = v\<rparr>"

definition delete :: "nat \<Rightarrow> nat \<Rightarrow> nat entry" where
  "delete k s = \<lparr>raw_user_key = k, raw_sequence = s, raw_type = 0, raw_value = []\<rparr>"

definition single_delete :: "nat \<Rightarrow> nat \<Rightarrow> nat entry" where
  "single_delete k s = \<lparr>raw_user_key = k, raw_sequence = s, raw_type = 7, raw_value = []\<rparr>"

definition malformed :: "nat \<Rightarrow> nat \<Rightarrow> nat entry" where
  "malformed k s = \<lparr>raw_user_key = k, raw_sequence = s, raw_type = 9, raw_value = []\<rparr>"

lemmas fixture_defs =
  concat_merge_operator_def plain_config_def new_iterator_def put_def merge_def delete_def
  single_delete_def malformed_def

text \<open>
  One key written three times: a put at version 1, a single delete at version 2 and a merge
  operand at version 3, in stream order (newest first).
\<close>

definition merge_over_single_delete :: "nat entry list" where
  "merge_over_single_delete = [merge 1 3 ''m'', single_delete 1 2, put 1 1 ''v'']"

section \<open>Merge operands and bases (C2)\<close>

text \<open>
  The forward resolver stops a merge chain at a single delete and calls the operator without
  a base. \<^verbatim>\<open>FindValueForCurrentKey\<close> tests \<^verbatim>\<open>last_not_merge_type == kTypeDeletion\<close> only, so
  a chain over a \<^verbatim>\<open>kTypeSingleDeletion\<close> takes the branch whose assertion says
  \<^verbatim>\<open>last_not_merge_type == kTypeValue\<close> and passes the stale \<^verbatim>\<open>saved_value_\<close> as the base.
\<close>

lemma forward_merge_over_single_delete:
  "map_option (full_merge_calls \<circ> snd)
     (forward_scan (plain_config merge_over_single_delete 3) (new_iterator 8))
   = Some [(1, None, [''m''])]"
  by (simp add: merge_over_single_delete_def fixture_defs source_defs dbiter_defs loop_simps)

text \<open>
  C2, at the failing input: positioned with \<^verbatim>\<open>SeekToLast\<close> on the stream above at snapshot 3,
  the backward resolver calls the merge operator once, with the operand of the merge and with
  the value of the put below the single delete as its base. The claim requires the base to be
  absent, because the visible chain ends at the single delete.
\<close>

theorem C2_backward_merge_over_single_delete_has_base:
  "map_option (map_sum id full_merge_calls)
     (SeekToLast (plain_config merge_over_single_delete 3) (new_iterator 8))
   = Some (Inr [(1, Some ''v'', [''m''])])"
  by (simp add: merge_over_single_delete_def fixture_defs source_defs dbiter_defs loop_simps)

section \<open>Forward and backward scans (C3)\<close>

text \<open>
  C3, at the failing input: on the same stream the full forward scan yields the key with the
  value of the merge without a base, and the full backward scan yields it with the deleted put
  folded in, so the reversed backward scan is not the forward scan.
\<close>

theorem C3_forward_and_backward_scans_differ:
  "map_option fst (forward_scan (plain_config merge_over_single_delete 3) (new_iterator 8))
     = Some [(1, ''m'')]
   \<and> map_option (map_sum id (rev \<circ> fst))
       (backward_scan (plain_config merge_over_single_delete 3) (new_iterator 8))
     = Some (Inr [(1, ''vm'')])"
  by (simp add: merge_over_single_delete_def fixture_defs source_defs dbiter_defs loop_simps)

section \<open>The reseek threshold (C4)\<close>

text \<open>
  C4, at the failing input: with the reseek threshold 1 the backward resolver switches to
  \<^verbatim>\<open>FindValueForCurrentKeyUsingSeek\<close>, which stops the chain at the single delete; with the
  threshold 8 it stays on the linear path. The two backward scans of the same stream at the
  same snapshot yield different values.
\<close>

theorem C4_threshold_changes_backward_scan:
  "map_option (map_sum id fst)
     (backward_scan (plain_config merge_over_single_delete 3) (new_iterator 1))
     = Some (Inr [(1, ''m'')])
   \<and> map_option (map_sum id fst)
       (backward_scan (plain_config merge_over_single_delete 3) (new_iterator 8))
     = Some (Inr [(1, ''vm'')])"
  by (simp add: merge_over_single_delete_def fixture_defs source_defs dbiter_defs loop_simps)

section \<open>A merge entry without a merge operator (C5)\<close>

text \<open>
  \<^verbatim>\<open>MergeValuesNewToOld\<close> tests the operator: without one it sets the status and makes the
  iterator invalid.
\<close>

lemma MergeValuesNewToOld_without_operator:
  "user_merge_operator cfg = None \<Longrightarrow>
     status (MergeValuesNewToOld cfg st) = InvalidArgument \<and> \<not> valid (MergeValuesNewToOld cfg st)"
  by (simp add: MergeValuesNewToOld_def)

lemma forward_scan_without_operator:
  "map_option (\<lambda>(kvs, fin). (kvs, status fin, valid fin))
     (forward_scan ((plain_config [merge 1 1 ''m''] 1)\<lparr>user_merge_operator := None\<rparr>)
        (new_iterator 8))
   = Some ([], InvalidArgument, False)"
  by (simp add: fixture_defs source_defs dbiter_defs loop_simps)

text \<open>
  C5, at the failing input: a stream of one merge entry, no merge operator. The backward
  resolver does not test the operator (it asserts it on the linear path) and calls it: the
  call through the null pointer is a fault of the process, and no status is set and no
  invalid iterator is returned.
\<close>

theorem C5_backward_merge_without_operator_faults:
  "SeekToLast ((plain_config [merge 1 1 ''m''] 1)\<lparr>user_merge_operator := None\<rparr>) (new_iterator 8)
   = Some (Inl NullMergeOperator)"
  by (simp add: fixture_defs source_defs dbiter_defs loop_simps)

section \<open>What the forward merge folder leaves unchanged\<close>

lemma MergeValuesLoop_frame:
  "saved_key (MergeValuesLoop cfg merge_op operands st) = saved_key st
   \<and> valid (MergeValuesLoop cfg merge_op operands st) = valid st
   \<and> direction (MergeValuesLoop cfg merge_op operands st) = direction st
   \<and> current_entry_is_merged (MergeValuesLoop cfg merge_op operands st) = current_entry_is_merged st
   \<and> max_skip (MergeValuesLoop cfg merge_op operands st) = max_skip st
   \<and> prefix_start (MergeValuesLoop cfg merge_op operands st) = prefix_start st
   \<and> merge_operands (MergeValuesLoop cfg merge_op operands st) = merge_operands st"
proof (induction cfg merge_op operands st rule: MergeValuesLoop.induct)
  case (1 cfg merge_op operands st)
  show ?case
  proof (cases "cur cfg st")
    case None
    then show ?thesis
      by (simp add: MergeValuesLoop.simps [of cfg merge_op operands st] FullMerge_def)
  next
    case (Some e)
    show ?thesis
    proof (cases "ParseInternalKey e")
      case None
      with Some 1(1) [OF Some None] show ?thesis
        by (simp add: MergeValuesLoop.simps [of cfg merge_op operands st] iter_Next_def)
    next
      case (Some ikey)
      with \<open>cur cfg st = Some e\<close> 1(2) [OF \<open>cur cfg st = Some e\<close> Some] show ?thesis
        by (simp add: MergeValuesLoop.simps [of cfg merge_op operands st] FullMerge_def
            iter_Next_def)
    qed
  qed
qed

lemma MergeValuesNewToOld_saved_key:
  "saved_key (MergeValuesNewToOld cfg st) = saved_key st"
  by (simp add: MergeValuesNewToOld_def MergeValuesLoop_frame iter_Next_def split: option.splits)

lemma MergeValuesNewToOld_frame:
  "direction (MergeValuesNewToOld cfg st) = direction st
   \<and> current_entry_is_merged (MergeValuesNewToOld cfg st) = current_entry_is_merged st
   \<and> max_skip (MergeValuesNewToOld cfg st) = max_skip st
   \<and> prefix_start (MergeValuesNewToOld cfg st) = prefix_start st
   \<and> merge_operands (MergeValuesNewToOld cfg st) = merge_operands st"
  by (simp add: MergeValuesNewToOld_def MergeValuesLoop_frame iter_Next_def split: option.splits)

lemma reseek_or_next_frame:
  "reseek_or_next cfg skipping n st = (n', st') \<Longrightarrow>
     saved_key st' = saved_key st \<and> valid st' = valid st \<and> direction st' = direction st
     \<and> current_entry_is_merged st' = current_entry_is_merged st \<and> max_skip st' = max_skip st
     \<and> prefix_start st' = prefix_start st \<and> status st' = status st
     \<and> saved_value st' = saved_value st \<and> merge_operands st' = merge_operands st
     \<and> full_merge_calls st' = full_merge_calls st"
  by (auto simp: reseek_or_next_def iter_Seek_def iter_Next_def split: if_splits)

section \<open>The upper bound (C6)\<close>

text \<open>
  Whenever the forward resolver returns a valid iterator, the key it saved passed the test
  against the upper bound.
\<close>

lemma FindNextUserEntryLoop_upper_bound_aux:
  "FindNextUserEntryLoop cfg skipping num_skipped st = Some st' \<Longrightarrow>
     iterate_upper_bound cfg = Some ub \<longrightarrow> valid st' \<longrightarrow> saved_key st' < ub"
proof (induct rule: FindNextUserEntryLoop.raw_induct [rotated, consumes 1, case_names step])
  case (step loop cfg skipping num_skipped st st')
  from step(2) show ?case
    by (auto split: option.splits if_splits prod.splits ValueType.splits
        simp: MergeValuesNewToOld_saved_key dest: step(1))
qed

lemma FindNextUserEntryLoop_upper_bound:
  assumes "FindNextUserEntryLoop cfg skipping num_skipped st = Some st'"
    and "iterate_upper_bound cfg = Some ub" and "valid st'"
  shows "saved_key st' < ub"
  using FindNextUserEntryLoop_upper_bound_aux [OF assms(1)] assms(2,3) by simp

lemma FindNextUserEntry_upper_bound:
  "FindNextUserEntry cfg skipping st = Some st' \<Longrightarrow> iterate_upper_bound cfg = Some ub \<Longrightarrow>
     valid st' \<Longrightarrow> saved_key st' < ub"
  unfolding FindNextUserEntry_def by (rule FindNextUserEntryLoop_upper_bound)

lemma prefix_check_frame:
  "saved_key (prefix_check cfg st) = saved_key st \<and> (valid (prefix_check cfg st) \<longrightarrow> valid st)
   \<and> prefix_start (prefix_check cfg st) = prefix_start st"
  by (simp add: prefix_check_def split: option.splits)

lemma set_prefix_start_frame:
  "saved_key (set_prefix_start cfg st) = saved_key st
   \<and> valid (set_prefix_start cfg st) = valid st"
  by (simp add: set_prefix_start_def split: option.splits)

lemma Next_upper_bound:
  assumes "Next cfg st = Some st'" "iterate_upper_bound cfg = Some ub" "valid st'"
  shows "key st' < ub"
  using assms
  by (auto simp: Next_def Let_def key_def prefix_check_frame split: if_splits
      dest!: FindNextUserEntry_upper_bound)

lemma SeekToFirst_upper_bound:
  assumes "SeekToFirst cfg st = Some st'" "iterate_upper_bound cfg = Some ub" "valid st'"
  shows "key st' < ub"
  using assms
  by (auto simp: SeekToFirst_def Let_def key_def set_prefix_start_frame split: if_splits
      dest!: FindNextUserEntry_upper_bound)

lemma Seek_upper_bound:
  assumes "Seek cfg target st = Some st'" "iterate_upper_bound cfg = Some ub" "valid st'"
  shows "key st' < ub"
  using assms
  by (auto simp: Seek_def Let_def key_def split: if_splits option.splits
      dest!: FindNextUserEntry_upper_bound)

text \<open>
  C6: with an exclusive upper bound configured, every state that \<^verbatim>\<open>Seek\<close>, \<^verbatim>\<open>SeekToFirst\<close> or
  \<^verbatim>\<open>Next\<close> returns, from any state, is either invalid or has a key strictly below the
  bound. This holds for every stream, sorted or not, with or without malformed entries.
\<close>

theorem C6_forward_keys_below_upper_bound:
  assumes "iterate_upper_bound cfg = Some ub"
    and "operation = Seek cfg target \<or> operation = SeekToFirst cfg \<or> operation = Next cfg"
    and "operation st = Some st'"
    and "valid st'"
  shows "key st' < ub"
  using assms Seek_upper_bound SeekToFirst_upper_bound Next_upper_bound by blast

text \<open>
  The witness: keys 1, 2 and 3 with the bound 3. \<^verbatim>\<open>SeekToFirst\<close> stops on key 1, \<^verbatim>\<open>Next\<close>
  on key 2, and a second \<^verbatim>\<open>Next\<close> makes the iterator invalid instead of yielding key 3.
\<close>

definition bounded_config :: "(nat, nat) config" where
  "bounded_config =
     (plain_config [put 1 1 ''a'', put 2 1 ''b'', put 3 1 ''c''] 1)\<lparr>iterate_upper_bound := Some 3\<rparr>"

lemma bounded_first: "SeekToFirst bounded_config (new_iterator 8) =
    Some ((new_iterator 8)\<lparr>iter := Some 0, valid := True, saved_key := 1\<rparr>)"
  by (simp add: bounded_config_def fixture_defs source_defs dbiter_defs loop_simps)

lemma bounded_second:
  "Next bounded_config ((new_iterator 8)\<lparr>iter := Some 0, valid := True, saved_key := 1\<rparr>) =
    Some ((new_iterator 8)\<lparr>iter := Some 1, valid := True, saved_key := 2\<rparr>)"
  by (simp add: bounded_config_def fixture_defs source_defs dbiter_defs loop_simps)

lemma bounded_third:
  "Next bounded_config ((new_iterator 8)\<lparr>iter := Some 1, valid := True, saved_key := 2\<rparr>) =
    Some ((new_iterator 8)\<lparr>iter := Some 2, valid := False, saved_key := 2\<rparr>)"
  by (simp add: bounded_config_def fixture_defs source_defs dbiter_defs loop_simps)

theorem C6_witness:
  "iterate_upper_bound bounded_config = Some 3
   \<and> Next bounded_config ((new_iterator 8)\<lparr>iter := Some 0, valid := True, saved_key := 1\<rparr>)
       = Some ((new_iterator 8)\<lparr>iter := Some 1, valid := True, saved_key := 2\<rparr>)
   \<and> valid ((new_iterator 8)\<lparr>iter := Some 1, valid := True, saved_key := 2\<rparr>)
   \<and> key ((new_iterator 8)\<lparr>iter := Some 1, valid := True, saved_key := 2\<rparr>) < 3"
proof -
  have b: "iterate_upper_bound bounded_config = Some 3"
    by (simp add: bounded_config_def plain_config_def)
  have v: "valid ((new_iterator 8)\<lparr>iter := Some 1, valid := True, saved_key := 2\<rparr>)"
    by simp
  from C6_forward_keys_below_upper_bound
         [where operation = "Next bounded_config" and target = 0, OF b _ bounded_second v]
  have "key ((new_iterator 8)\<lparr>iter := Some 1, valid := True, saved_key := 2\<rparr>) < 3"
    by simp
  with b bounded_second v show ?thesis by simp
qed

section \<open>The prefix lock (C7)\<close>

text \<open>
  The resolver reads neither the flag \<^verbatim>\<open>prefix_same_as_start_\<close> nor the key \<^verbatim>\<open>prefix_start_\<close>:
  only the tests at the end of the positioning and stepping calls do. So a run with the lock
  is the run of the same iterator without the lock, up to these tests. \<open>unlocked\<close> switches
  the flag off and \<open>with_prefix_start\<close> stores a locked prefix.
\<close>

definition unlocked :: "('k, 'p) config \<Rightarrow> ('k, 'p) config" where
  "unlocked cfg = cfg\<lparr>prefix_same_as_start := False\<rparr>"

definition with_prefix_start :: "'p \<Rightarrow> ('k, 'p) dbiter \<Rightarrow> ('k, 'p) dbiter" where
  "with_prefix_start p st = st\<lparr>prefix_start := p\<rparr>"

lemma unlocked_fields:
  "entries (unlocked cfg) = entries cfg"
  "sequence_no (unlocked cfg) = sequence_no cfg"
  "user_merge_operator (unlocked cfg) = user_merge_operator cfg"
  "iterate_upper_bound (unlocked cfg) = iterate_upper_bound cfg"
  "prefix_extractor (unlocked cfg) = prefix_extractor cfg"
  "prefix_same_as_start (unlocked cfg) = False"
  by (simp_all add: unlocked_def)

lemma with_prefix_start_fields:
  "iter (with_prefix_start p st) = iter st"
  "direction (with_prefix_start p st) = direction st"
  "valid (with_prefix_start p st) = valid st"
  "saved_key (with_prefix_start p st) = saved_key st"
  "saved_value (with_prefix_start p st) = saved_value st"
  "current_entry_is_merged (with_prefix_start p st) = current_entry_is_merged st"
  "status (with_prefix_start p st) = status st"
  "max_skip (with_prefix_start p st) = max_skip st"
  "prefix_start (with_prefix_start p st) = p"
  "merge_operands (with_prefix_start p st) = merge_operands st"
  "full_merge_calls (with_prefix_start p st) = full_merge_calls st"
  by (simp_all add: with_prefix_start_def)

lemma with_prefix_start_updates:
  "(with_prefix_start p st)\<lparr>iter := i\<rparr> = with_prefix_start p (st\<lparr>iter := i\<rparr>)"
  "(with_prefix_start p st)\<lparr>direction := d\<rparr> = with_prefix_start p (st\<lparr>direction := d\<rparr>)"
  "(with_prefix_start p st)\<lparr>valid := b\<rparr> = with_prefix_start p (st\<lparr>valid := b\<rparr>)"
  "(with_prefix_start p st)\<lparr>saved_key := k\<rparr> = with_prefix_start p (st\<lparr>saved_key := k\<rparr>)"
  "(with_prefix_start p st)\<lparr>saved_value := v\<rparr> = with_prefix_start p (st\<lparr>saved_value := v\<rparr>)"
  "(with_prefix_start p st)\<lparr>current_entry_is_merged := b\<rparr>
     = with_prefix_start p (st\<lparr>current_entry_is_merged := b\<rparr>)"
  "(with_prefix_start p st)\<lparr>status := s\<rparr> = with_prefix_start p (st\<lparr>status := s\<rparr>)"
  "(with_prefix_start p st)\<lparr>max_skip := m\<rparr> = with_prefix_start p (st\<lparr>max_skip := m\<rparr>)"
  "(with_prefix_start p st)\<lparr>full_merge_calls := c\<rparr>
     = with_prefix_start p (st\<lparr>full_merge_calls := c\<rparr>)"
  by (simp_all add: with_prefix_start_def)

lemma cur_lock: "cur cfg (with_prefix_start p st) = cur (unlocked cfg) st"
  by (simp add: cur_def unlocked_fields with_prefix_start_fields split: option.splits)

lemma iter_Next_lock:
  "iter_Next cfg (with_prefix_start p st) = with_prefix_start p (iter_Next (unlocked cfg) st)"
  by (simp add: iter_Next_def unlocked_fields with_prefix_start_fields with_prefix_start_updates
      cong: option.case_cong)

lemma iter_Seek_lock:
  "iter_Seek cfg tgt (with_prefix_start p st) = with_prefix_start p (iter_Seek (unlocked cfg) tgt st)"
  by (simp add: iter_Seek_def unlocked_fields with_prefix_start_fields with_prefix_start_updates)

lemma FullMerge_lock:
  "FullMerge merge_op k existing operands (with_prefix_start p st)
     = with_prefix_start p (FullMerge merge_op k existing operands st)"
  by (simp add: FullMerge_def with_prefix_start_fields with_prefix_start_updates)

lemmas lock_simps = unlocked_fields with_prefix_start_fields with_prefix_start_updates
  cur_lock iter_Next_lock iter_Seek_lock FullMerge_lock

lemma MergeValuesLoop_lock:
  "MergeValuesLoop cfg merge_op operands (with_prefix_start p st)
     = with_prefix_start p (MergeValuesLoop (unlocked cfg) merge_op operands st)"
proof (induction "unlocked cfg" merge_op operands st rule: MergeValuesLoop.induct)
  case (1 merge_op operands st)
  show ?case
  proof (cases "cur (unlocked cfg) st")
    case None
    then show ?thesis
      by (simp add: MergeValuesLoop.simps [of cfg merge_op operands "with_prefix_start p st"]
          MergeValuesLoop.simps [of "unlocked cfg" merge_op operands st] lock_simps)
  next
    case (Some e)
    show ?thesis
    proof (cases "ParseInternalKey e")
      case None
      with Some 1(1) [OF Some None] show ?thesis
        by (simp add: MergeValuesLoop.simps [of cfg merge_op operands "with_prefix_start p st"]
            MergeValuesLoop.simps [of "unlocked cfg" merge_op operands st] lock_simps)
    next
      case (Some ikey)
      with \<open>cur (unlocked cfg) st = Some e\<close> 1(2) [OF \<open>cur (unlocked cfg) st = Some e\<close> Some]
      show ?thesis
        by (simp add: MergeValuesLoop.simps [of cfg merge_op operands "with_prefix_start p st"]
            MergeValuesLoop.simps [of "unlocked cfg" merge_op operands st] lock_simps)
    qed
  qed
qed

lemma MergeValuesNewToOld_lock:
  "MergeValuesNewToOld cfg (with_prefix_start p st)
     = with_prefix_start p (MergeValuesNewToOld (unlocked cfg) st)"
  by (simp add: MergeValuesNewToOld_def iter_value_def lock_simps MergeValuesLoop_lock
      split: option.splits)

lemma reseek_or_next_lock:
  "reseek_or_next cfg skipping n (with_prefix_start p st)
     = (case reseek_or_next (unlocked cfg) skipping n st of
          (n', st') \<Rightarrow> (n', with_prefix_start p st'))"
  by (simp add: reseek_or_next_def lock_simps)

lemma FindNextUserEntryLoop_lock_aux:
  "FindNextUserEntryLoop ucfg skipping num_skipped st = Some st' \<Longrightarrow>
     ucfg = unlocked cfg \<longrightarrow>
       FindNextUserEntryLoop cfg skipping num_skipped (with_prefix_start p st)
         = Some (with_prefix_start p st')
       \<and> direction st' = direction st"
proof (induct rule: FindNextUserEntryLoop.raw_induct [rotated, consumes 1, case_names step])
  case (step loop ucfg skipping num_skipped st st')
  show ?case
  proof
    assume u: "ucfg = unlocked cfg"
    note IH = step(1) [THEN mp, OF _ u]
    show "FindNextUserEntryLoop cfg skipping num_skipped (with_prefix_start p st)
            = Some (with_prefix_start p st') \<and> direction st' = direction st"
    proof (cases "cur ucfg st")
      case None
      with step(2) u show ?thesis
        by (subst FindNextUserEntryLoop.simps) (auto simp: lock_simps)
    next
      case (Some e)
      show ?thesis
      proof (cases "ParseInternalKey e")
        case None
        obtain n1 st1 where r: "reseek_or_next ucfg skipping num_skipped (st\<lparr>status := Corruption\<rparr>)
            = (n1, st1)"
          by (cases "reseek_or_next ucfg skipping num_skipped (st\<lparr>status := Corruption\<rparr>)")
        with step(2) Some None have "loop ucfg skipping n1 st1 = Some st'"
          by simp
        from IH [OF this] reseek_or_next_frame [OF r] r Some None u show ?thesis
          by (subst FindNextUserEntryLoop.simps) (simp add: lock_simps reseek_or_next_lock)
      next
        case (Some ikey)
        note parsed = \<open>cur ucfg st = Some e\<close> Some
        show ?thesis
        proof (cases "case iterate_upper_bound ucfg of None \<Rightarrow> False | Some ub \<Rightarrow> ub \<le> user_key ikey")
          case True
          with step(2) parsed u show ?thesis
            by (subst FindNextUserEntryLoop.simps) (auto simp: lock_simps)
        next
          case False
          note nb = False
          show ?thesis
          proof (cases "sequence ikey \<le> sequence_no ucfg")
            case False
            obtain n1 st1 where r: "reseek_or_next ucfg skipping num_skipped st = (n1, st1)"
              by (cases "reseek_or_next ucfg skipping num_skipped st")
            with step(2) parsed nb False have "loop ucfg skipping n1 st1 = Some st'"
              by simp
            from IH [OF this] reseek_or_next_frame [OF r] r parsed nb False u show ?thesis
              by (subst FindNextUserEntryLoop.simps) (simp add: lock_simps reseek_or_next_lock)
          next
            case True
            note vis = True
            show ?thesis
            proof (cases "skipping \<and> user_key ikey \<le> saved_key st")
              case True
              obtain n1 st1 where r: "reseek_or_next ucfg skipping ((num_skipped + 1) mod 2 ^ 64) st
                  = (n1, st1)"
                by (cases "reseek_or_next ucfg skipping ((num_skipped + 1) mod 2 ^ 64) st")
              with step(2) parsed nb vis True have "loop ucfg skipping n1 st1 = Some st'"
                by simp
              from IH [OF this] reseek_or_next_frame [OF r] r parsed nb vis True u show ?thesis
                by (subst FindNextUserEntryLoop.simps) (simp add: lock_simps reseek_or_next_lock)
            next
              case False
              show ?thesis
              proof (cases "vtype ikey = kTypeValue \<or> vtype ikey = kTypeMerge")
                case True
                with step(2) parsed nb vis False u show ?thesis
                  by (subst FindNextUserEntryLoop.simps)
                     (auto simp: lock_simps MergeValuesNewToOld_lock MergeValuesNewToOld_frame)
              next
                case nv: False
                obtain n1 st1 where r: "reseek_or_next ucfg True 0 (st\<lparr>saved_key := user_key ikey\<rparr>)
                    = (n1, st1)"
                  by (cases "reseek_or_next ucfg True 0 (st\<lparr>saved_key := user_key ikey\<rparr>)")
                with step(2) parsed nb vis False nv have "loop ucfg True n1 st1 = Some st'"
                  by (cases "vtype ikey") auto
                from IH [OF this] reseek_or_next_frame [OF r] r parsed nb vis False nv u
                show ?thesis
                  by (subst FindNextUserEntryLoop.simps)
                     (cases "vtype ikey"; auto simp add: lock_simps reseek_or_next_lock)
              qed
            qed
          qed
        qed
      qed
    qed
  qed
qed

lemma FindNextUserEntry_lock:
  assumes "FindNextUserEntry (unlocked cfg) skipping st = Some st'"
  shows "FindNextUserEntry cfg skipping (with_prefix_start p st) = Some (with_prefix_start p st')"
    and "direction st' = direction st"
  using FindNextUserEntryLoop_lock_aux [of "unlocked cfg" skipping 0
      "st\<lparr>current_entry_is_merged := False\<rparr>" st' cfg p] assms
  by (simp_all add: FindNextUserEntry_def lock_simps)


lemma with_prefix_start_twice:
  "with_prefix_start p (with_prefix_start q st) = with_prefix_start p st"
  by (simp add: with_prefix_start_def)

lemma iter_Valid_lock: "iter_Valid cfg (with_prefix_start p st) = iter_Valid (unlocked cfg) st"
  by (simp add: iter_Valid_def cur_lock)

lemma value_lock: "value cfg (with_prefix_start p st) = value (unlocked cfg) st"
  by (simp add: value_def iter_value_def lock_simps)

lemma prefix_check_unlocked: "prefix_check (unlocked cfg) st = st"
  by (simp add: prefix_check_def unlocked_fields split: option.splits)


lemma Next_lock:
  assumes "Next (unlocked cfg) st = Some st'" and "direction st = kForward"
  shows "Next cfg (with_prefix_start p st) = Some (prefix_check cfg (with_prefix_start p st'))"
    and "direction st' = kForward"
proof -
  define st1 where "st1 = (if iter_Valid (unlocked cfg) st \<and> \<not> current_entry_is_merged st
                           then iter_Next (unlocked cfg) st else st)"
  have d1: "direction st1 = kForward"
    using assms(2) by (simp add: st1_def iter_Next_def)
  have pre: "(if iter_Valid cfg (with_prefix_start p st)
                 \<and> \<not> current_entry_is_merged (with_prefix_start p st)
              then iter_Next cfg (with_prefix_start p st) else with_prefix_start p st)
             = with_prefix_start p st1"
    by (simp add: st1_def iter_Valid_lock lock_simps)
  show "Next cfg (with_prefix_start p st) = Some (prefix_check cfg (with_prefix_start p st'))"
  proof (cases "iter_Valid (unlocked cfg) st1")
    case False
    with assms have "st' = st1\<lparr>valid := False\<rparr>"
      by (simp add: Next_def st1_def Let_def split: if_splits)
    with False assms(2) pre show ?thesis
      by (simp add: Next_def Let_def with_prefix_start_fields iter_Valid_lock
          with_prefix_start_updates prefix_check_def split: option.splits)
  next
    case True
    with assms have "FindNextUserEntry (unlocked cfg) True st1 = Some st'"
      by (simp add: Next_def st1_def Let_def prefix_check_unlocked split: if_splits)
    from FindNextUserEntry_lock(1) [OF this, of p] True assms(2) pre show ?thesis
      by (simp add: Next_def Let_def with_prefix_start_fields iter_Valid_lock)
  qed
  show "direction st' = kForward"
  proof (cases "iter_Valid (unlocked cfg) st1")
    case False
    with assms have "st' = st1\<lparr>valid := False\<rparr>"
      by (simp add: Next_def st1_def Let_def split: if_splits)
    with d1 show ?thesis by simp
  next
    case True
    with assms have "FindNextUserEntry (unlocked cfg) True st1 = Some st'"
      by (simp add: Next_def st1_def Let_def prefix_check_unlocked split: if_splits)
    from FindNextUserEntry_lock(2) [OF this] d1 show ?thesis by simp
  qed
qed

lemma collect_forward_head:
  assumes "collect_forward cfg st = Some (kvs, fin)"
  shows "if valid st then \<exists>rest. kvs = (key st, value cfg st) # rest else kvs = [] \<and> fin = st"
  using assms
  by (subst (asm) collect_forward.simps)
     (auto split: if_splits option.splits simp: bind_eq_Some_conv)

lemma collect_forward_lock:
  assumes "prefix_extractor cfg = Some transform" and "prefix_same_as_start cfg"
  shows "collect_forward (unlocked cfg) st = Some (kvs, fin) \<Longrightarrow> direction st = kForward \<Longrightarrow>
     \<exists>fin'. collect_forward cfg (with_prefix_start p st)
              = Some ((case kvs of [] \<Rightarrow> []
                       | kv # rest \<Rightarrow> kv # takeWhile (\<lambda>kv'. transform (fst kv') = p) rest), fin')
            \<and> \<not> valid fin'"
proof (induction kvs arbitrary: st)
  case Nil
  from collect_forward_head [OF Nil(1)] have "\<not> valid st"
    by (auto split: if_splits)
  then show ?case
    by (subst collect_forward.simps) (simp add: with_prefix_start_fields)
next
  case (Cons kv rest)
  from collect_forward_head [OF Cons(2)] have v: "valid st" and kv: "kv = (key st, value (unlocked cfg) st)"
    by (auto split: if_splits)
  from Cons(2) v obtain st1 where n: "Next (unlocked cfg) st = Some st1"
    and c: "collect_forward (unlocked cfg) st1 = Some (rest, fin)"
    by (subst (asm) collect_forward.simps)
       (auto split: option.splits simp: bind_eq_Some_conv)
  note nl = Next_lock(1) [OF n Cons(3), of p] Next_lock(2) [OF n Cons(3)]
  have kv': "(key (with_prefix_start p st), value cfg (with_prefix_start p st)) = kv"
    by (simp add: kv key_def value_lock with_prefix_start_fields)
  show ?case
  proof (cases "valid st1")
    case False
    with collect_forward_head [OF c] have "rest = []" by simp
    moreover have "prefix_check cfg (with_prefix_start p st1) = with_prefix_start p st1"
      using False by (simp add: prefix_check_def with_prefix_start_fields split: option.splits)
    moreover have "collect_forward cfg (with_prefix_start p st1) = Some ([], with_prefix_start p st1)"
      using False by (subst collect_forward.simps) (simp add: with_prefix_start_fields)
    ultimately show ?thesis
      using v nl(1) kv' False
      by (subst collect_forward.simps) (simp add: with_prefix_start_fields)
  next
    case True
    with collect_forward_head [OF c] obtain rest1 where
      r: "rest = (key st1, value (unlocked cfg) st1) # rest1"
      by auto
    show ?thesis
    proof (cases "transform (saved_key st1) = p")
      case same: True
      then have "prefix_check cfg (with_prefix_start p st1) = with_prefix_start p st1"
        using assms by (simp add: prefix_check_def with_prefix_start_fields)
      moreover from Cons.IH [OF c nl(2)] obtain fin' where
        "collect_forward cfg (with_prefix_start p st1)
           = Some ((case rest of [] \<Rightarrow> []
                    | kv # rest \<Rightarrow> kv # takeWhile (\<lambda>kv'. transform (fst kv') = p) rest), fin')"
        "\<not> valid fin'"
        by blast
      ultimately show ?thesis
        using v nl(1) kv' r same
        by (subst collect_forward.simps) (simp add: with_prefix_start_fields key_def)
    next
      case differs: False
      then have "prefix_check cfg (with_prefix_start p st1) = (with_prefix_start p st1)\<lparr>valid := False\<rparr>"
        using assms True by (simp add: prefix_check_def with_prefix_start_fields)
      moreover have "collect_forward cfg ((with_prefix_start p st1)\<lparr>valid := False\<rparr>)
                       = Some ([], (with_prefix_start p st1)\<lparr>valid := False\<rparr>)"
        by (subst collect_forward.simps) simp
      ultimately show ?thesis
        using v nl(1) kv' r differs
        by (subst collect_forward.simps) (simp add: with_prefix_start_fields key_def)
    qed
  qed
qed




text \<open>
  The caller's loop, cut after a number of steps: \<open>n\<close> times it collects \<^verbatim>\<open>key()\<close> and
  \<^verbatim>\<open>value()\<close> of a valid iterator and calls \<^verbatim>\<open>Next\<close>. The result is the entries collected and
  the state after the last \<^verbatim>\<open>Next\<close>.
\<close>

fun next_steps ::
  "('k::linorder, 'p) config \<Rightarrow> nat \<Rightarrow> ('k, 'p) dbiter
   \<Rightarrow> (('k \<times> string) list \<times> ('k, 'p) dbiter) option" where
  "next_steps cfg 0 st = Some ([], st)"
| "next_steps cfg (Suc n) st =
     (if valid st then
        (case Next cfg st of
           None \<Rightarrow> None
         | Some st' \<Rightarrow>
             map_option (\<lambda>(kvs, fin). ((key st, value cfg st) # kvs, fin)) (next_steps cfg n st'))
      else None)"










section \<open>Well-formed streams\<close>

text \<open>
  The invariant of the source stream of section 3 of the specification: the entries are
  totally ordered by user key ascending, then version descending, and every entry is a
  physical entry (it parses).
\<close>

definition stream_order :: "'k::linorder entry \<Rightarrow> 'k entry \<Rightarrow> bool" where
  "stream_order a b =
     (raw_user_key a < raw_user_key b
      \<or> (raw_user_key a = raw_user_key b \<and> raw_sequence b < raw_sequence a))"

definition well_formed :: "('k::linorder, 'p) config \<Rightarrow> bool" where
  "well_formed cfg =
     (sorted_wrt stream_order (entries cfg)
      \<and> list_all (\<lambda>e. ParseInternalKey e \<noteq> None) (entries cfg))"

definition below_bound :: "('k::linorder, 'p) config \<Rightarrow> 'k \<Rightarrow> bool" where
  "below_bound cfg k = (case iterate_upper_bound cfg of None \<Rightarrow> True | Some ub \<Rightarrow> k < ub)"

definition is_tombstone :: "'k entry \<Rightarrow> bool" where
  "is_tombstone e = (decode_type (raw_type e) = Some kTypeDeletion
                     \<or> decode_type (raw_type e) = Some kTypeSingleDeletion)"

definition is_merge :: "'k entry \<Rightarrow> bool" where
  "is_merge e = (decode_type (raw_type e) = Some kTypeMerge)"

definition is_put :: "'k entry \<Rightarrow> bool" where
  "is_put e = (decode_type (raw_type e) = Some kTypeValue)"

lemma well_formed_keys:
  assumes "well_formed cfg" "i \<le> j" "j < length (entries cfg)"
  shows "raw_user_key (entries cfg ! i) \<le> raw_user_key (entries cfg ! j)"
proof (cases "i = j")
  case True
  then show ?thesis by simp
next
  case False
  with assms have "stream_order (entries cfg ! i) (entries cfg ! j)"
    by (auto simp: well_formed_def sorted_wrt_iff_nth_less)
  then show ?thesis by (auto simp: stream_order_def)
qed

lemma well_formed_versions:
  assumes "well_formed cfg" "i < j" "j < length (entries cfg)"
    and "raw_user_key (entries cfg ! i) = raw_user_key (entries cfg ! j)"
  shows "raw_sequence (entries cfg ! j) < raw_sequence (entries cfg ! i)"
proof -
  from assms have "stream_order (entries cfg ! i) (entries cfg ! j)"
    by (auto simp: well_formed_def sorted_wrt_iff_nth_less)
  with assms(4) show ?thesis by (auto simp: stream_order_def)
qed

lemma well_formed_parses:
  assumes "well_formed cfg" "i < length (entries cfg)"
  shows "\<exists>t. decode_type (raw_type (entries cfg ! i)) = Some t
       \<and> ParseInternalKey (entries cfg ! i)
           = Some \<lparr>user_key = raw_user_key (entries cfg ! i),
                   sequence = raw_sequence (entries cfg ! i), vtype = t\<rparr>"
proof -
  from assms have "ParseInternalKey (entries cfg ! i) \<noteq> None"
    by (auto simp: well_formed_def list_all_length)
  then show ?thesis
    by (auto simp: ParseInternalKey_def split: option.splits)
qed

lemma first_index_Some:
  "first_index P xs = Some j \<Longrightarrow> j < length xs \<and> P (xs ! j) \<and> (\<forall>i<j. \<not> P (xs ! i))"
proof (induction xs arbitrary: j)
  case Nil
  then show ?case by simp
next
  case (Cons x xs)
  show ?case
  proof (cases "P x")
    case True
    with Cons.prems show ?thesis by simp
  next
    case False
    with Cons.prems obtain j' where j': "first_index P xs = Some j'" "j = Suc j'"
      by auto
    from Cons.IH [OF j'(1)] False j'(2) show ?thesis
      by (auto simp: nth_Cons split: nat.splits)
  qed
qed

lemma first_index_None:
  "first_index P xs = None \<Longrightarrow> i < length xs \<Longrightarrow> \<not> P (xs ! i)"
  by (induction xs arbitrary: i) (auto simp: nth_Cons split: if_splits nat.splits)

section \<open>The forward resolver on well-formed streams\<close>

text \<open>
  The linear scan that \<^verbatim>\<open>FindNextUserEntryInternal\<close> performs when it never reseeks, on
  positions of the stream: it stops at the upper bound or at the end of the stream, or it
  finds the first visible entry of a key that is not skipped and is not a tombstone.
\<close>

datatype 'k outcome = Stopped "nat option" 'k | At nat

function linear_scan :: "('k::linorder, 'p) config \<Rightarrow> bool \<Rightarrow> 'k \<Rightarrow> nat \<Rightarrow> 'k outcome" where
  "linear_scan cfg skipping saved q =
     (if length (entries cfg) \<le> q then Stopped None saved
      else if \<not> below_bound cfg (raw_user_key (entries cfg ! q)) then Stopped (Some q) saved
      else if raw_sequence (entries cfg ! q) \<le> sequence_no cfg then
        (if skipping \<and> raw_user_key (entries cfg ! q) \<le> saved then
           linear_scan cfg skipping saved (Suc q)
         else if is_tombstone (entries cfg ! q) then
           linear_scan cfg True (raw_user_key (entries cfg ! q)) (Suc q)
         else At q)
      else linear_scan cfg skipping saved (Suc q))"
  by pat_completeness auto
termination
  by (relation "measure (\<lambda>(cfg, skipping, saved, q). length (entries cfg) - q)") auto

declare linear_scan.simps [simp del]

definition finish :: "('k, 'p) config \<Rightarrow> ('k, 'p) dbiter \<Rightarrow> 'k outcome \<Rightarrow> ('k, 'p) dbiter" where
  "finish cfg st r =
     (case r of
        Stopped pos saved \<Rightarrow> st\<lparr>iter := pos, saved_key := saved, valid := False\<rparr>
      | At q \<Rightarrow>
          if is_merge (entries cfg ! q) then
            MergeValuesNewToOld cfg
              (st\<lparr>iter := Some q, saved_key := raw_user_key (entries cfg ! q),
                  current_entry_is_merged := True, valid := True\<rparr>)
          else st\<lparr>iter := Some q, valid := True, saved_key := raw_user_key (entries cfg ! q)\<rparr>)"

lemma finish_cong:
  "finish cfg (st\<lparr>iter := i, saved_key := k\<rparr>) r = finish cfg st r"
  "finish cfg (st\<lparr>iter := i\<rparr>) r = finish cfg st r"
  "finish cfg (st\<lparr>saved_key := k\<rparr>) r = finish cfg st r"
  by (simp_all add: finish_def split: outcome.splits)

lemma below_bound_mono: "below_bound cfg k \<Longrightarrow> k' \<le> k \<Longrightarrow> below_bound cfg k'"
  by (auto simp: below_bound_def split: option.splits)

lemma linear_scan_skip:
  assumes "below_bound cfg saved"
  shows "q \<le> j \<Longrightarrow> j \<le> length (entries cfg) \<Longrightarrow>
         (\<forall>i. q \<le> i \<and> i < j \<longrightarrow> raw_user_key (entries cfg ! i) \<le> saved) \<Longrightarrow>
         linear_scan cfg True saved q = linear_scan cfg True saved j"
proof (induction "j - q" arbitrary: q)
  case 0
  then show ?case by simp
next
  case (Suc d)
  then have q: "q < j" "q < length (entries cfg)" by auto
  with Suc.prems have k: "raw_user_key (entries cfg ! q) \<le> saved" by auto
  from Suc.hyps(1) [of "Suc q"] Suc.hyps(2) Suc.prems q
  have "linear_scan cfg True saved (Suc q) = linear_scan cfg True saved j" by auto
  with q k below_bound_mono [OF assms k] show ?case
    by (subst linear_scan.simps) simp
qed

lemma reseek_landing:
  assumes "well_formed cfg" "q < length (entries cfg)" "raw_user_key (entries cfg ! q) \<le> saved"
  shows "case first_index (seek_target_le (saved, 0, kTypeDeletion)) (entries cfg) of
           None \<Rightarrow> (\<forall>i. q \<le> i \<and> i < length (entries cfg)
                          \<longrightarrow> raw_user_key (entries cfg ! i) \<le> saved)
         | Some j \<Rightarrow> q \<le> j \<and> j < length (entries cfg)
                     \<and> (\<forall>i. q \<le> i \<and> i < j \<longrightarrow> raw_user_key (entries cfg ! i) \<le> saved)"
proof (cases "first_index (seek_target_le (saved, 0, kTypeDeletion)) (entries cfg)")
  case None
  have "raw_user_key (entries cfg ! i) \<le> saved" if "i < length (entries cfg)" for i
    using first_index_None [OF None that] by (auto simp: seek_target_le_def)
  with None show ?thesis by simp
next
  case (Some j)
  from first_index_Some [OF Some] have j: "j < length (entries cfg)"
    and pj: "seek_target_le (saved, 0, kTypeDeletion) (entries cfg ! j)"
    and before: "\<And>i. i < j \<Longrightarrow> \<not> seek_target_le (saved, 0, kTypeDeletion) (entries cfg ! i)"
    by auto
  have "q \<le> j"
  proof (rule ccontr)
    assume "\<not> q \<le> j"
    then have jq: "j < q" by simp
    from well_formed_keys [OF assms(1) _ assms(2), of j] jq assms(3)
    have le: "raw_user_key (entries cfg ! j) \<le> saved" by auto
    with pj have eq: "raw_user_key (entries cfg ! j) = saved" "raw_sequence (entries cfg ! j) = 0"
      by (auto simp: seek_target_le_def)
    from well_formed_keys [OF assms(1) _ assms(2), of j] jq assms(3) eq(1)
    have "raw_user_key (entries cfg ! j) = raw_user_key (entries cfg ! q)" by auto
    from well_formed_versions [OF assms(1) jq assms(2) this] eq(2) show False by simp
  qed
  moreover have "raw_user_key (entries cfg ! i) \<le> saved" if "i < j" for i
    using before [OF that] by (auto simp: seek_target_le_def)
  ultimately show ?thesis using Some j by simp
qed

lemma upper_bound_test:
  "(case iterate_upper_bound cfg of None \<Rightarrow> False | Some ub \<Rightarrow> ub \<le> k) = (\<not> below_bound cfg k)"
  by (auto simp: below_bound_def split: option.splits)

lemma finish_Stopped:
  "iter st = pos \<Longrightarrow> finish cfg st (Stopped pos (saved_key st)) = st\<lparr>valid := False\<rparr>"
  by (cases st) (simp add: finish_def)

lemma finish_At:
  "iter st = Some q \<Longrightarrow>
     finish cfg st (At q) =
       (if is_merge (entries cfg ! q) then
          MergeValuesNewToOld cfg
            (st\<lparr>saved_key := raw_user_key (entries cfg ! q),
                current_entry_is_merged := True, valid := True\<rparr>)
        else st\<lparr>valid := True, saved_key := raw_user_key (entries cfg ! q)\<rparr>)"
  by (cases st) (simp add: finish_def)

lemma iter_after_Next:
  "iter st = Some q \<Longrightarrow>
     iter (iter_Next cfg st) = (if Suc q < length (entries cfg) then Some (Suc q) else None)"
  by (simp add: iter_Next_def)

lemma finish_iter_Next:
  "finish cfg (iter_Next cfg st) r = finish cfg st r"
  "finish cfg (iter_Next cfg (st\<lparr>saved_key := k\<rparr>)) r = finish cfg st r"
  "finish cfg (iter_Seek cfg tgt st) r = finish cfg st r"
  by (simp_all add: iter_Next_def iter_Seek_def finish_cong)

text \<open>
  On a well-formed stream and with a reseek threshold of at least 1, the loop of
  \<^verbatim>\<open>FindNextUserEntryInternal\<close> returns, and its result is the result of the linear scan: a
  reseek only moves the cursor over entries that the linear scan skips.
\<close>

lemma FindNextUserEntryLoop_linear:
  assumes wf: "well_formed cfg"
  shows "0 < max_skip st \<Longrightarrow> n \<le> max_skip st \<Longrightarrow>
         iter st = (if q < length (entries cfg) then Some q else None) \<Longrightarrow>
         (skipping \<longrightarrow> below_bound cfg (saved_key st)) \<Longrightarrow>
         FindNextUserEntryLoop cfg skipping n st
           = Some (finish cfg st (linear_scan cfg skipping (saved_key st) q))"
proof (induction "length (entries cfg) - q" arbitrary: q n st skipping rule: less_induct)
  case less
  note IH = less.hyps
  note pos = \<open>iter st = (if q < length (entries cfg) then Some q else None)\<close>
  show ?case
  proof (cases "q < length (entries cfg)")
    case False
    with pos have "cur cfg st = None" "iter st = None"
      by (simp_all add: cur_def)
    with False show ?thesis
      by (subst FindNextUserEntryLoop.simps, subst linear_scan.simps)
         (simp add: finish_Stopped)
  next
    case True
    define e where "e = entries cfg ! q"
    from True pos have it: "iter st = Some q" and c: "cur cfg st = Some e"
      by (simp_all add: cur_def e_def)
    from well_formed_parses [OF wf True] obtain t where
      t: "decode_type (raw_type e) = Some t"
      and p: "ParseInternalKey e
        = Some \<lparr>user_key = raw_user_key e, sequence = raw_sequence e, vtype = t\<rparr>"
      by (auto simp: e_def)
    have next_pos: "iter (iter_Next cfg s) = (if Suc q < length (entries cfg) then Some (Suc q) else None)"
      if "iter s = Some q" for s :: "('a, 'b) dbiter"
      using that by (rule iter_after_Next)
    have step: "FindNextUserEntryLoop cfg sk n' (iter_Next cfg s)
                  = Some (finish cfg s (linear_scan cfg sk (saved_key s) (Suc q)))"
      if "iter s = Some q" "0 < max_skip s" "n' \<le> max_skip s" "sk \<longrightarrow> below_bound cfg (saved_key s)"
      for sk n' and s :: "('a, 'b) dbiter"
    proof -
      have "FindNextUserEntryLoop cfg sk n' (iter_Next cfg s)
              = Some (finish cfg (iter_Next cfg s)
                        (linear_scan cfg sk (saved_key (iter_Next cfg s)) (Suc q)))"
        using that True
        by (intro IH) (simp_all add: next_pos, simp_all add: iter_Next_def)
      then show ?thesis
        by (simp add: finish_iter_Next) (simp add: iter_Next_def)
    qed
    show ?thesis
    proof (cases "below_bound cfg (raw_user_key e)")
      case False
      with True c p it show ?thesis
        by (subst FindNextUserEntryLoop.simps, subst linear_scan.simps)
           (simp add: upper_bound_test e_def finish_Stopped)
    next
      case bb: True
      show ?thesis
      proof (cases "raw_sequence e \<le> sequence_no cfg")
        case False
        from less.prems have "reseek_or_next cfg skipping n st = (n, iter_Next cfg st)"
          by (auto simp: reseek_or_next_def)
        with True c p bb False step [OF it less.prems(1,2,4)] show ?thesis
          by (subst FindNextUserEntryLoop.simps, subst linear_scan.simps)
             (simp add: upper_bound_test e_def)
      next
        case vis: True
        show ?thesis
        proof (cases "skipping \<and> raw_user_key e \<le> saved_key st")
          case skip: True
          have unfold_linear: "linear_scan cfg skipping (saved_key st) q
                = linear_scan cfg True (saved_key st) (Suc q)"
            using True bb vis skip by (subst linear_scan.simps) (simp add: e_def)
          have quiet: "FindNextUserEntryLoop cfg True n0 st
                = Some (finish cfg st (linear_scan cfg True (saved_key st) (Suc q)))"
            if "\<not> max_skip st < (n0 + 1) mod 2 ^ 64" for n0
          proof -
            from that have "reseek_or_next cfg True ((n0 + 1) mod 2 ^ 64) st
                              = ((n0 + 1) mod 2 ^ 64, iter_Next cfg st)"
              by (simp add: reseek_or_next_def)
            moreover from that have "(n0 + 1) mod 2 ^ 64 \<le> max_skip st" by simp
            note step [OF it less.prems(1) this, of True]
            ultimately show ?thesis
              using c p bb vis skip less.prems(4)
              by (subst FindNextUserEntryLoop.simps) (simp add: upper_bound_test)
          qed
          show ?thesis
          proof (cases "max_skip st < (n + 1) mod 2 ^ 64")
            case False
            from quiet [OF False] unfold_linear skip show ?thesis by simp
          next
            case reseek: True
            define st1 where "st1 = iter_Seek cfg (saved_key st, 0, kTypeDeletion) st"
            have r: "reseek_or_next cfg True ((n + 1) mod 2 ^ 64) st = (0, st1)"
              using reseek by (simp add: reseek_or_next_def st1_def)
            have first: "FindNextUserEntryLoop cfg skipping n st
                           = FindNextUserEntryLoop cfg True 0 st1"
              using c p bb vis skip r
              by (subst FindNextUserEntryLoop.simps) (simp add: upper_bound_test)
            have st1_fields: "saved_key st1 = saved_key st" "max_skip st1 = max_skip st"
              by (simp_all add: st1_def iter_Seek_def)
            from skip have k: "raw_user_key (entries cfg ! q) \<le> saved_key st"
              and bs: "below_bound cfg (saved_key st)"
              using less.prems(4) by (simp_all add: e_def)
            note landing = reseek_landing [OF wf True k]
            show ?thesis
            proof (cases "first_index (seek_target_le (saved_key st, 0, kTypeDeletion)) (entries cfg)")
              case None
              with landing have all: "\<forall>i. q \<le> i \<and> i < length (entries cfg)
                  \<longrightarrow> raw_user_key (entries cfg ! i) \<le> saved_key st"
                by simp
              from None have i1: "iter st1 = None"
                by (simp add: st1_def iter_Seek_def)
              then have "cur cfg st1 = None" by (simp add: cur_def)
              then have "FindNextUserEntryLoop cfg True 0 st1 = Some (st1\<lparr>valid := False\<rparr>)"
                by (subst FindNextUserEntryLoop.simps) simp
              moreover have "linear_scan cfg True (saved_key st) q
                    = linear_scan cfg True (saved_key st) (length (entries cfg))"
                using True all by (intro linear_scan_skip [OF bs]) auto
              then have "linear_scan cfg True (saved_key st) q = Stopped None (saved_key st)"
                by (subst (asm) (2) linear_scan.simps) simp
              moreover have "st1\<lparr>valid := False\<rparr> = finish cfg st (Stopped None (saved_key st))"
                using None by (simp add: st1_def iter_Seek_def finish_def)
              ultimately show ?thesis
                using first skip by simp
            next
              case (Some j)
              with landing have j: "q \<le> j" "j < length (entries cfg)"
                and all: "\<forall>i. q \<le> i \<and> i < j \<longrightarrow> raw_user_key (entries cfg ! i) \<le> saved_key st"
                by simp_all
              from Some have i1: "iter st1 = Some j"
                by (simp add: st1_def iter_Seek_def)
              have lin: "linear_scan cfg True (saved_key st) q = linear_scan cfg True (saved_key st) j"
                using j all by (intro linear_scan_skip [OF bs]) auto
              show ?thesis
              proof (cases "j = q")
                case False
                with j have "length (entries cfg) - j < length (entries cfg) - q" by simp
                from IH [OF this, of st1 0 True] i1 j less.prems(1) bs
                have "FindNextUserEntryLoop cfg True 0 st1
                        = Some (finish cfg st1 (linear_scan cfg True (saved_key st) j))"
                  by (simp add: st1_fields)
                then show ?thesis
                  using first lin skip by (simp add: st1_def finish_iter_Next)
              next
                case same: True
                with i1 it have "st1 = st"
                  by (simp add: st1_def iter_Seek_def Some)
                moreover from less.prems(1) have "\<not> max_skip st < (0 + 1) mod 2 ^ 64"
                  by simp
                note quiet [OF this]
                ultimately show ?thesis
                  using first unfold_linear skip by simp
              qed
            qed
          qed
        next
          case noskip: False
          show ?thesis
          proof (cases "is_tombstone e")
            case True
            have r: "reseek_or_next cfg True 0 (st\<lparr>saved_key := raw_user_key e\<rparr>)
                       = (0, iter_Next cfg (st\<lparr>saved_key := raw_user_key e\<rparr>))"
              by (simp add: reseek_or_next_def)
            have "FindNextUserEntryLoop cfg True 0 (iter_Next cfg (st\<lparr>saved_key := raw_user_key e\<rparr>))
                    = Some (finish cfg (st\<lparr>saved_key := raw_user_key e\<rparr>)
                        (linear_scan cfg True (saved_key (st\<lparr>saved_key := raw_user_key e\<rparr>)) (Suc q)))"
              using it less.prems(1) bb by (intro step) simp_all
            then have "FindNextUserEntryLoop cfg True 0 (iter_Next cfg (st\<lparr>saved_key := raw_user_key e\<rparr>))
                    = Some (finish cfg st (linear_scan cfg True (raw_user_key e) (Suc q)))"
              by (simp add: finish_cong)
            with \<open>q < length (entries cfg)\<close> c p bb vis noskip True t r show ?thesis
              by (subst FindNextUserEntryLoop.simps, subst linear_scan.simps)
                 (auto simp add: upper_bound_test e_def is_tombstone_def)
          next
            case False
            with \<open>q < length (entries cfg)\<close> c p bb vis noskip t it show ?thesis
              by (subst FindNextUserEntryLoop.simps, subst linear_scan.simps)
                 (cases t; auto simp add: upper_bound_test e_def is_tombstone_def is_merge_def
                    finish_At)
          qed
        qed
      qed
    qed
  qed
qed

section \<open>The logical view of a snapshot\<close>

text \<open>
  The specification's words (section 3, invariants (a) to (c), and section 4.4): the visible
  entries of a key are its well-formed physical entries with a version at most the snapshot,
  newest first (an unparseable entry is no entry of any key); the key has a value when the
  newest visible entry is a put, or a merge operand and a merge operator is configured; a
  merge operand is folded with the contiguous older merge operands, oldest first, over the
  put that follows them as a base, or over no base when a tombstone or nothing follows.
\<close>

definition visible_entries :: "('k, 'p) config \<Rightarrow> 'k \<Rightarrow> 'k entry list" where
  "visible_entries cfg k =
     filter (\<lambda>e. ParseInternalKey e \<noteq> None \<and> raw_user_key e = k
                 \<and> raw_sequence e \<le> sequence_no cfg) (entries cfg)"

definition merge_base :: "'k entry list \<Rightarrow> string option" where
  "merge_base below =
     (case below of [] \<Rightarrow> None | b # _ \<Rightarrow> if is_put b then Some (raw_value b) else None)"

definition logical_value :: "('k, 'p) config \<Rightarrow> 'k \<Rightarrow> string option" where
  "logical_value cfg k =
     (case visible_entries cfg k of
        [] \<Rightarrow> None
      | newest # older \<Rightarrow>
          if is_put newest then Some (raw_value newest)
          else if is_merge newest then
            (case user_merge_operator cfg of
               None \<Rightarrow> None
             | Some merge_op \<Rightarrow>
                 Some (merge_op k (merge_base (dropWhile is_merge (newest # older)))
                         (rev (map raw_value (takeWhile is_merge (newest # older))))))
          else None)"

lemma visible_entries_well_formed:
  assumes "well_formed cfg"
  shows "visible_entries cfg k
           = filter (\<lambda>e. raw_user_key e = k \<and> raw_sequence e \<le> sequence_no cfg) (entries cfg)"
  unfolding visible_entries_def
  using assms by (intro filter_cong refl) (auto simp: well_formed_def list_all_iff)

lemma logical_value_no_visible:
  assumes "\<And>j. j < length (entries cfg) \<Longrightarrow> raw_user_key (entries cfg ! j) = k \<Longrightarrow>
             sequence_no cfg < raw_sequence (entries cfg ! j)"
  shows "logical_value cfg k = None"
proof -
  have "visible_entries cfg k = []"
    unfolding visible_entries_def filter_empty_conv
    using assms by (fastforce simp: in_set_conv_nth)
  then show ?thesis by (simp add: logical_value_def)
qed

text \<open>On a sorted stream the entries of one key are contiguous.\<close>

lemma same_key_run:
  assumes "sorted_wrt stream_order (x # xs)" "raw_user_key x = k"
  shows "filter (\<lambda>e. raw_user_key e = k \<and> raw_sequence e \<le> s) xs
           = filter (\<lambda>e. raw_sequence e \<le> s) (takeWhile (\<lambda>e. raw_user_key e = k) xs)"
  using assms
proof (induction xs arbitrary: x)
  case Nil
  then show ?case by simp
next
  case (Cons y ys)
  show ?case
  proof (cases "raw_user_key y = k")
    case True
    from Cons.prems have "sorted_wrt stream_order (y # ys)" by simp
    from Cons.IH [OF this True] True show ?thesis by simp
  next
    case False
    with Cons.prems have "k < raw_user_key y" by (auto simp: stream_order_def)
    moreover from Cons.prems have "\<forall>z\<in>set ys. stream_order y z" by simp
    ultimately have "\<forall>z\<in>set ys. raw_user_key z \<noteq> k"
      by (auto simp: stream_order_def)
    with False show ?thesis by (simp add: filter_empty_conv)
  qed
qed

lemma visible_entries_from_first:
  assumes wf: "well_formed cfg" and q: "q < length (entries cfg)"
    and vis: "raw_sequence (entries cfg ! q) \<le> sequence_no cfg"
    and before: "\<And>j. j < q \<Longrightarrow> raw_user_key (entries cfg ! j) = raw_user_key (entries cfg ! q)
                   \<Longrightarrow> sequence_no cfg < raw_sequence (entries cfg ! j)"
  shows "visible_entries cfg (raw_user_key (entries cfg ! q))
           = entries cfg ! q
             # takeWhile (\<lambda>e. raw_user_key e = raw_user_key (entries cfg ! q))
                 (drop (Suc q) (entries cfg))"
proof -
  define k where "k = raw_user_key (entries cfg ! q)"
  define P where "P = (\<lambda>e::'a entry. raw_user_key e = k \<and> raw_sequence e \<le> sequence_no cfg)"
  have split: "entries cfg = take q (entries cfg) @ entries cfg ! q # drop (Suc q) (entries cfg)"
    using q by (simp add: id_take_nth_drop)
  have "filter P (take q (entries cfg)) = []"
    unfolding filter_empty_conv
  proof
    fix x assume "x \<in> set (take q (entries cfg))"
    then obtain j where "j < q" "x = entries cfg ! j"
      using q by (auto simp: in_set_conv_nth)
    with before [of j] show "\<not> P x" by (auto simp: P_def k_def)
  qed
  moreover have "P (entries cfg ! q)"
    using vis by (simp add: P_def k_def)
  moreover have "filter P (drop (Suc q) (entries cfg))
                   = takeWhile (\<lambda>e. raw_user_key e = k) (drop (Suc q) (entries cfg))"
  proof -
    from wf have s: "sorted_wrt stream_order (entries cfg ! q # drop (Suc q) (entries cfg))"
      using q by (metis Cons_nth_drop_Suc sorted_wrt_drop well_formed_def)
    have "filter (\<lambda>e. raw_sequence e \<le> sequence_no cfg)
            (takeWhile (\<lambda>e. raw_user_key e = k) (drop (Suc q) (entries cfg)))
          = takeWhile (\<lambda>e. raw_user_key e = k) (drop (Suc q) (entries cfg))"
      unfolding filter_id_conv
    proof
      fix x assume x: "x \<in> set (takeWhile (\<lambda>e. raw_user_key e = k) (drop (Suc q) (entries cfg)))"
      then have "raw_user_key x = k" by (auto dest: set_takeWhileD)
      moreover from x have "x \<in> set (drop (Suc q) (entries cfg))" by (auto dest: set_takeWhileD)
      with s have "stream_order (entries cfg ! q) x" by simp
      ultimately show "raw_sequence x \<le> sequence_no cfg"
        using vis by (auto simp: stream_order_def k_def)
    qed
    with same_key_run [OF s, of k "sequence_no cfg"] show ?thesis
      by (simp add: P_def k_def)
  qed
  ultimately have "filter P (entries cfg)
      = entries cfg ! q # takeWhile (\<lambda>e. raw_user_key e = k) (drop (Suc q) (entries cfg))"
    by (subst split) simp
  then show ?thesis by (simp add: visible_entries_well_formed [OF wf] P_def k_def)
qed

section \<open>What the linear scan finds\<close>

text \<open>
  The invariant of the linear scan, for a set \<open>C\<close> of keys the caller asks about.
  \<open>pending\<close>: the key is not skipped. \<open>passed\<close>: the key is smaller than every key from the
  position on. The invariant says that the keys asked about that are skipped or passed have
  no value, that the entries of the key at the cursor before the cursor are invisible, and
  that every key that can still be found is asked about.
\<close>

definition pending :: "bool \<Rightarrow> 'k::linorder \<Rightarrow> 'k \<Rightarrow> bool" where
  "pending skipping saved k = (skipping \<longrightarrow> saved < k)"

definition passed :: "('k::linorder, 'p) config \<Rightarrow> nat \<Rightarrow> 'k \<Rightarrow> bool" where
  "passed cfg q k = (q < length (entries cfg) \<longrightarrow> k < raw_user_key (entries cfg ! q))"

definition invisible_before :: "('k, 'p) config \<Rightarrow> nat \<Rightarrow> bool" where
  "invisible_before cfg q =
     (\<forall>j<q. raw_user_key (entries cfg ! j) = raw_user_key (entries cfg ! q)
              \<longrightarrow> sequence_no cfg < raw_sequence (entries cfg ! j))"

definition scan_inv ::
  "('k \<Rightarrow> bool) \<Rightarrow> ('k::linorder, 'p) config \<Rightarrow> bool \<Rightarrow> 'k \<Rightarrow> nat \<Rightarrow> bool" where
  "scan_inv C cfg skipping saved q =
     ((\<forall>k. C k \<and> (\<not> pending skipping saved k \<or> passed cfg q k) \<longrightarrow> logical_value cfg k = None)
      \<and> (q < length (entries cfg) \<longrightarrow> pending skipping saved (raw_user_key (entries cfg ! q))
            \<longrightarrow> invisible_before cfg q)
      \<and> (\<forall>k. pending skipping saved k \<and> \<not> passed cfg q k \<longrightarrow> C k))"

definition scan_post ::
  "('k \<Rightarrow> bool) \<Rightarrow> ('k::linorder, 'p) config \<Rightarrow> nat \<Rightarrow> 'k outcome \<Rightarrow> bool" where
  "scan_post C cfg q r =
     (case r of
        Stopped pos saved' \<Rightarrow> (\<forall>k. C k \<and> below_bound cfg k \<longrightarrow> logical_value cfg k = None)
      | At q' \<Rightarrow>
          q \<le> q' \<and> q' < length (entries cfg)
          \<and> C (raw_user_key (entries cfg ! q'))
          \<and> below_bound cfg (raw_user_key (entries cfg ! q'))
          \<and> raw_sequence (entries cfg ! q') \<le> sequence_no cfg
          \<and> \<not> is_tombstone (entries cfg ! q')
          \<and> invisible_before cfg q'
          \<and> (\<forall>k. C k \<and> k < raw_user_key (entries cfg ! q') \<longrightarrow> logical_value cfg k = None))"

lemma scan_post_Suc: "scan_post C cfg (Suc q) r \<Longrightarrow> scan_post C cfg q r"
  by (auto simp: scan_post_def split: outcome.splits)

lemma no_entry_between:
  assumes wf: "well_formed cfg" and q: "q < length (entries cfg)"
    and lo: "raw_user_key (entries cfg ! q) < k" and hi: "passed cfg (Suc q) k"
  shows "logical_value cfg k = None"
proof (rule logical_value_no_visible)
  fix j assume j: "j < length (entries cfg)" "raw_user_key (entries cfg ! j) = k"
  show "sequence_no cfg < raw_sequence (entries cfg ! j)"
  proof (cases "j \<le> q")
    case True
    from well_formed_keys [OF wf True q] j(2) lo show ?thesis by simp
  next
    case False
    with j(1) have "Suc q \<le> j" "Suc q < length (entries cfg)" by simp_all
    from well_formed_keys [OF wf this(1) j(1)] hi j this(2) show ?thesis
      by (auto simp: passed_def)
  qed
qed

lemma passed_less:
  "q < length (entries cfg) \<Longrightarrow> k < raw_user_key (entries cfg ! q) \<Longrightarrow> passed cfg q k"
  by (simp add: passed_def)

lemma not_passed_Suc:
  assumes "well_formed cfg" "\<not> passed cfg (Suc q) k"
  shows "raw_user_key (entries cfg ! q) \<le> k" and "\<not> passed cfg q k"
proof -
  from assms(2) have s: "Suc q < length (entries cfg)" "raw_user_key (entries cfg ! Suc q) \<le> k"
    by (auto simp: passed_def)
  with well_formed_keys [OF assms(1), of q "Suc q"]
  show "raw_user_key (entries cfg ! q) \<le> k" by simp
  with s show "\<not> passed cfg q k" by (simp add: passed_def)
qed

lemma invisible_before_Suc:
  assumes wf: "well_formed cfg" and s: "Suc q < length (entries cfg)"
    and same: "raw_user_key (entries cfg ! Suc q) = raw_user_key (entries cfg ! q) \<Longrightarrow>
               invisible_before cfg q \<and> sequence_no cfg < raw_sequence (entries cfg ! q)"
  shows "invisible_before cfg (Suc q)"
  unfolding invisible_before_def
proof (intro allI impI)
  fix j assume j: "j < Suc q" "raw_user_key (entries cfg ! j) = raw_user_key (entries cfg ! Suc q)"
  from s have q: "q < length (entries cfg)" by simp
  from well_formed_keys [OF wf _ q, of j] j(1)
  have "raw_user_key (entries cfg ! j) \<le> raw_user_key (entries cfg ! q)" by simp
  moreover from well_formed_keys [OF wf _ s, of q]
  have "raw_user_key (entries cfg ! q) \<le> raw_user_key (entries cfg ! Suc q)" by simp
  ultimately have e: "raw_user_key (entries cfg ! Suc q) = raw_user_key (entries cfg ! q)"
    using j(2) by simp
  from same [OF e] j e show "sequence_no cfg < raw_sequence (entries cfg ! j)"
    by (cases "j = q") (auto simp: invisible_before_def)
qed

lemma scan_inv_invisible:
  assumes wf: "well_formed cfg" and q: "q < length (entries cfg)"
    and inv: "scan_inv C cfg skipping saved q"
    and invisible: "\<not> raw_sequence (entries cfg ! q) \<le> sequence_no cfg"
  shows "scan_inv C cfg skipping saved (Suc q)"
  unfolding scan_inv_def
proof (intro conjI allI impI)
  fix k assume k: "C k \<and> (\<not> pending skipping saved k \<or> passed cfg (Suc q) k)"
  show "logical_value cfg k = None"
  proof (cases "\<not> pending skipping saved k \<or> passed cfg q k")
    case True
    with inv k show ?thesis by (auto simp: scan_inv_def)
  next
    case False
    with k have pk: "pending skipping saved k" "passed cfg (Suc q) k"
      "raw_user_key (entries cfg ! q) \<le> k"
      using q by (auto simp: passed_def)
    show ?thesis
    proof (cases "k = raw_user_key (entries cfg ! q)")
      case False
      with pk no_entry_between [OF wf q _ pk(2)] show ?thesis by simp
    next
      case True
      with inv q pk(1) have before: "invisible_before cfg q"
        by (simp add: scan_inv_def)
      show ?thesis
      proof (rule logical_value_no_visible)
        fix j assume j: "j < length (entries cfg)" "raw_user_key (entries cfg ! j) = k"
        consider "j < q" | "j = q" | "Suc q \<le> j" by linarith
        then show "sequence_no cfg < raw_sequence (entries cfg ! j)"
        proof cases
          case 1
          with before True j(2) show ?thesis by (simp add: invisible_before_def)
        next
          case 2
          with invisible show ?thesis by simp
        next
          case 3
          with j(1) have "Suc q < length (entries cfg)" by simp
          with well_formed_keys [OF wf 3 j(1)] pk(2) j show ?thesis
            by (auto simp: passed_def)
        qed
      qed
    qed
  qed
next
  assume s: "Suc q < length (entries cfg)"
    and p: "pending skipping saved (raw_user_key (entries cfg ! Suc q))"
  show "invisible_before cfg (Suc q)"
  proof (rule invisible_before_Suc [OF wf s])
    assume "raw_user_key (entries cfg ! Suc q) = raw_user_key (entries cfg ! q)"
    with p inv q invisible
    show "invisible_before cfg q \<and> sequence_no cfg < raw_sequence (entries cfg ! q)"
      by (simp add: scan_inv_def)
  qed
next
  fix k assume k: "pending skipping saved k \<and> \<not> passed cfg (Suc q) k"
  with not_passed_Suc(2) [OF wf, of q k] inv show "C k"
    by (auto simp: scan_inv_def)
qed

lemma scan_inv_skip:
  assumes wf: "well_formed cfg" and q: "q < length (entries cfg)"
    and inv: "scan_inv C cfg skipping saved q"
    and skip: "skipping \<and> raw_user_key (entries cfg ! q) \<le> saved"
  shows "scan_inv C cfg skipping saved (Suc q)"
  unfolding scan_inv_def
proof (intro conjI allI impI)
  fix k assume k: "C k \<and> (\<not> pending skipping saved k \<or> passed cfg (Suc q) k)"
  show "logical_value cfg k = None"
  proof (cases "pending skipping saved k")
    case False
    with inv k show ?thesis by (auto simp: scan_inv_def)
  next
    case True
    with skip have "raw_user_key (entries cfg ! q) < k" by (auto simp: pending_def)
    with k True no_entry_between [OF wf q] show ?thesis by auto
  qed
next
  assume s: "Suc q < length (entries cfg)"
    and p: "pending skipping saved (raw_user_key (entries cfg ! Suc q))"
  show "invisible_before cfg (Suc q)"
  proof (rule invisible_before_Suc [OF wf s])
    assume "raw_user_key (entries cfg ! Suc q) = raw_user_key (entries cfg ! q)"
    with p skip show "invisible_before cfg q \<and> sequence_no cfg < raw_sequence (entries cfg ! q)"
      by (auto simp: pending_def)
  qed
next
  fix k assume k: "pending skipping saved k \<and> \<not> passed cfg (Suc q) k"
  with not_passed_Suc(2) [OF wf, of q k] inv show "C k"
    by (auto simp: scan_inv_def)
qed

lemma logical_value_tombstone:
  assumes wf: "well_formed cfg" and q: "q < length (entries cfg)"
    and vis: "raw_sequence (entries cfg ! q) \<le> sequence_no cfg"
    and before: "invisible_before cfg q"
    and tomb: "is_tombstone (entries cfg ! q)"
  shows "logical_value cfg (raw_user_key (entries cfg ! q)) = None"
proof -
  from before have "visible_entries cfg (raw_user_key (entries cfg ! q))
      = entries cfg ! q
        # takeWhile (\<lambda>e. raw_user_key e = raw_user_key (entries cfg ! q)) (drop (Suc q) (entries cfg))"
    by (intro visible_entries_from_first [OF wf q vis]) (simp add: invisible_before_def)
  with tomb show ?thesis
    by (auto simp: logical_value_def is_tombstone_def is_put_def is_merge_def)
qed

lemma scan_inv_tombstone:
  assumes wf: "well_formed cfg" and q: "q < length (entries cfg)"
    and inv: "scan_inv C cfg skipping saved q"
    and vis: "raw_sequence (entries cfg ! q) \<le> sequence_no cfg"
    and noskip: "\<not> (skipping \<and> raw_user_key (entries cfg ! q) \<le> saved)"
    and tomb: "is_tombstone (entries cfg ! q)"
  shows "scan_inv C cfg True (raw_user_key (entries cfg ! q)) (Suc q)"
  unfolding scan_inv_def
proof (intro conjI allI impI)
  from noskip have pq: "pending skipping saved (raw_user_key (entries cfg ! q))"
    by (auto simp: pending_def)
  with inv q have before: "invisible_before cfg q" by (simp add: scan_inv_def)
  fix k assume k: "C k \<and> (\<not> pending True (raw_user_key (entries cfg ! q)) k \<or> passed cfg (Suc q) k)"
  consider "k < raw_user_key (entries cfg ! q)" | "k = raw_user_key (entries cfg ! q)"
    | "raw_user_key (entries cfg ! q) < k" by (meson less_linear)
  then show "logical_value cfg k = None"
  proof cases
    case 1
    with inv k passed_less [OF q] show ?thesis by (auto simp: scan_inv_def)
  next
    case 2
    with logical_value_tombstone [OF wf q vis before tomb] show ?thesis by simp
  next
    case 3
    with k no_entry_between [OF wf q] show ?thesis by (auto simp: pending_def)
  qed
next
  assume s: "Suc q < length (entries cfg)"
    and p: "pending True (raw_user_key (entries cfg ! q)) (raw_user_key (entries cfg ! Suc q))"
  show "invisible_before cfg (Suc q)"
  proof (rule invisible_before_Suc [OF wf s])
    assume "raw_user_key (entries cfg ! Suc q) = raw_user_key (entries cfg ! q)"
    with p show "invisible_before cfg q \<and> sequence_no cfg < raw_sequence (entries cfg ! q)"
      by (simp add: pending_def)
  qed
next
  fix k assume k: "pending True (raw_user_key (entries cfg ! q)) k \<and> \<not> passed cfg (Suc q) k"
  with noskip have "pending skipping saved k" by (auto simp: pending_def)
  with k not_passed_Suc(2) [OF wf, of q k] inv show "C k"
    by (auto simp: scan_inv_def)
qed

lemma linear_scan_spec:
  "well_formed cfg \<Longrightarrow> scan_inv C cfg skipping saved q \<Longrightarrow>
     scan_post C cfg q (linear_scan cfg skipping saved q)"
proof (induction cfg skipping saved q rule: linear_scan.induct)
  case (1 cfg skipping saved q)
  note wf = "1.prems"(1) and inv = "1.prems"(2)
  show ?case
  proof (cases "length (entries cfg) \<le> q")
    case True
    then have "passed cfg q k" for k by (simp add: passed_def)
    with inv True show ?thesis
      by (subst linear_scan.simps) (simp add: scan_post_def scan_inv_def)
  next
    case False
    then have q: "q < length (entries cfg)" by simp
    show ?thesis
    proof (cases "below_bound cfg (raw_user_key (entries cfg ! q))")
      case False
      have "logical_value cfg k = None" if "C k" "below_bound cfg k" for k
      proof -
        from that(2) False have "k < raw_user_key (entries cfg ! q)"
          by (auto simp: below_bound_def split: option.splits)
        with inv that(1) passed_less [OF q] show ?thesis by (auto simp: scan_inv_def)
      qed
      with q False show ?thesis
        by (subst linear_scan.simps) (simp add: scan_post_def)
    next
      case bb: True
      show ?thesis
      proof (cases "raw_sequence (entries cfg ! q) \<le> sequence_no cfg")
        case invisible: False
        from "1.IH"(3) [OF \<open>\<not> length (entries cfg) \<le> q\<close> _ invisible wf
            scan_inv_invisible [OF wf q inv invisible]] bb
        have "scan_post C cfg (Suc q) (linear_scan cfg skipping saved (Suc q))" by simp
        with q bb invisible show ?thesis
          by (subst linear_scan.simps) (simp add: scan_post_Suc)
      next
        case vis: True
        show ?thesis
        proof (cases "skipping \<and> raw_user_key (entries cfg ! q) \<le> saved")
          case skip: True
          from "1.IH"(1) [OF \<open>\<not> length (entries cfg) \<le> q\<close> _ vis skip wf
              scan_inv_skip [OF wf q inv skip]] bb
          have "scan_post C cfg (Suc q) (linear_scan cfg skipping saved (Suc q))" by simp
          with q bb vis skip show ?thesis
            by (subst linear_scan.simps) (simp add: scan_post_Suc)
        next
          case noskip: False
          show ?thesis
          proof (cases "is_tombstone (entries cfg ! q)")
            case tomb: True
            from "1.IH"(2) [OF \<open>\<not> length (entries cfg) \<le> q\<close> _ vis noskip tomb wf
                scan_inv_tombstone [OF wf q inv vis noskip tomb]] bb
            have "scan_post C cfg (Suc q)
                    (linear_scan cfg True (raw_user_key (entries cfg ! q)) (Suc q))" by simp
            with q bb vis noskip tomb show ?thesis
              by (subst linear_scan.simps) (auto simp: scan_post_Suc)
          next
            case found: False
            from noskip have pq: "pending skipping saved (raw_user_key (entries cfg ! q))"
              by (auto simp: pending_def)
            have np: "\<not> passed cfg q (raw_user_key (entries cfg ! q))"
              using q by (simp add: passed_def)
            from inv q pq np passed_less [OF q]
            have "scan_post C cfg q (At q)"
              using bb vis found by (auto simp: scan_post_def scan_inv_def)
            with q bb vis noskip found show ?thesis
              by (subst linear_scan.simps) auto
          qed
        qed
      qed
    qed
  qed
qed

section \<open>The forward resolver for every reseek threshold\<close>

text \<open>
  Whatever the reseek threshold, when the loop of \<^verbatim>\<open>FindNextUserEntryInternal\<close> returns on a
  well-formed stream, its result is the result of the linear scan.
\<close>

lemma FindNextUserEntryLoop_returns_linear_aux:
  "FindNextUserEntryLoop cfg skipping n st = Some st' \<Longrightarrow>
     well_formed cfg \<longrightarrow> n \<le> max_skip st \<longrightarrow>
     (skipping \<longrightarrow> below_bound cfg (saved_key st)) \<longrightarrow>
     (\<forall>q. iter st = (if q < length (entries cfg) then Some q else None) \<longrightarrow>
          st' = finish cfg st (linear_scan cfg skipping (saved_key st) q))"
proof (induct rule: FindNextUserEntryLoop.raw_induct [rotated, consumes 1, case_names step])
  case (step loop cfg skipping n st st')
  show ?case
  proof (intro impI allI)
    fix q
    assume wf: "well_formed cfg" and n: "n \<le> max_skip st"
      and bs: "skipping \<longrightarrow> below_bound cfg (saved_key st)"
      and pos: "iter st = (if q < length (entries cfg) then Some q else None)"
    have IH: "r = finish cfg s (linear_scan cfg sk (saved_key s) j)"
      if "loop cfg sk m s = Some r" "m \<le> max_skip s" "sk \<longrightarrow> below_bound cfg (saved_key s)"
        "iter s = (if j < length (entries cfg) then Some j else None)"
      for sk m s r j
      using step(1) [OF that(1)] wf that(2-4) by blast
    show "st' = finish cfg st (linear_scan cfg skipping (saved_key st) q)"
    proof (cases "q < length (entries cfg)")
      case False
      with pos have "cur cfg st = None" "iter st = None"
        by (simp_all add: cur_def)
      with False step(2) show ?thesis
        by (subst linear_scan.simps) (simp add: finish_Stopped)
    next
      case True
      define e where "e = entries cfg ! q"
      from True pos have it: "iter st = Some q" and c: "cur cfg st = Some e"
        by (simp_all add: cur_def e_def)
      from well_formed_parses [OF wf True] obtain t where
        t: "decode_type (raw_type e) = Some t"
        and p: "ParseInternalKey e
          = Some \<lparr>user_key = raw_user_key e, sequence = raw_sequence e, vtype = t\<rparr>"
        by (auto simp: e_def)
      have after: "r = finish cfg s (linear_scan cfg sk (saved_key s) (Suc q))"
        if "loop cfg sk m (iter_Next cfg s) = Some r" "iter s = Some q" "m \<le> max_skip s"
          "sk \<longrightarrow> below_bound cfg (saved_key s)"
        for sk m r and s :: "('a, 'b) dbiter"
      proof -
        have "r = finish cfg (iter_Next cfg s)
                    (linear_scan cfg sk (saved_key (iter_Next cfg s)) (Suc q))"
          using that
          by (intro IH [of sk m]) (simp_all add: iter_after_Next, simp_all add: iter_Next_def)
        then show ?thesis
          by (simp add: finish_iter_Next) (simp add: iter_Next_def)
      qed
      show ?thesis
      proof (cases "below_bound cfg (raw_user_key e)")
        case False
        with True c p it step(2) show ?thesis
          by (subst linear_scan.simps) (simp add: upper_bound_test e_def finish_Stopped)
      next
        case bb: True
        show ?thesis
        proof (cases "raw_sequence e \<le> sequence_no cfg")
          case False
          from n have "reseek_or_next cfg skipping n st = (n, iter_Next cfg st)"
            by (auto simp: reseek_or_next_def)
          with c p bb False step(2) have "loop cfg skipping n (iter_Next cfg st) = Some st'"
            by (simp add: upper_bound_test)
          from after [OF this it n bs] True bb False show ?thesis
            by (subst linear_scan.simps) (simp add: e_def)
        next
          case vis: True
          show ?thesis
          proof (cases "skipping \<and> raw_user_key e \<le> saved_key st")
            case skip: True
            have unfold_linear: "linear_scan cfg skipping (saved_key st) q
                  = linear_scan cfg True (saved_key st) (Suc q)"
              using True bb vis skip by (subst linear_scan.simps) (simp add: e_def)
            from skip bs have bs': "below_bound cfg (saved_key st)" by simp
            show ?thesis
            proof (cases "max_skip st < (n + 1) mod 2 ^ 64")
              case False
              then have "reseek_or_next cfg True ((n + 1) mod 2 ^ 64) st
                                = ((n + 1) mod 2 ^ 64, iter_Next cfg st)"
                by (simp add: reseek_or_next_def)
              with c p bb vis skip step(2)
              have "loop cfg True ((n + 1) mod 2 ^ 64) (iter_Next cfg st) = Some st'"
                by (simp add: upper_bound_test)
              from after [OF this it] False bs' unfold_linear show ?thesis by simp
            next
              case reseek: True
              define st1 where "st1 = iter_Seek cfg (saved_key st, 0, kTypeDeletion) st"
              have r: "reseek_or_next cfg True ((n + 1) mod 2 ^ 64) st = (0, st1)"
                using reseek by (simp add: reseek_or_next_def st1_def)
              with c p bb vis skip step(2) have first: "loop cfg True 0 st1 = Some st'"
                by (simp add: upper_bound_test)
              have st1_fields: "saved_key st1 = saved_key st" "max_skip st1 = max_skip st"
                by (simp_all add: st1_def iter_Seek_def)
              from skip have k: "raw_user_key (entries cfg ! q) \<le> saved_key st"
                by (simp add: e_def)
              note landing = reseek_landing [OF wf True k]
              show ?thesis
              proof (cases "first_index (seek_target_le (saved_key st, 0, kTypeDeletion)) (entries cfg)")
                case None
                with landing have all: "\<forall>i. q \<le> i \<and> i < length (entries cfg)
                    \<longrightarrow> raw_user_key (entries cfg ! i) \<le> saved_key st"
                  by simp
                from None have i1: "iter st1 = None"
                  by (simp add: st1_def iter_Seek_def)
                have "st' = finish cfg st1
                              (linear_scan cfg True (saved_key st1) (length (entries cfg)))"
                  using first i1 bs' by (intro IH [of True 0]) (simp_all add: st1_fields)
                moreover have "linear_scan cfg True (saved_key st) q
                      = linear_scan cfg True (saved_key st) (length (entries cfg))"
                  using True all by (intro linear_scan_skip [OF bs']) auto
                ultimately show ?thesis
                  using skip by (simp add: st1_fields) (simp add: st1_def finish_iter_Next)
              next
                case (Some j)
                with landing have j: "q \<le> j" "j < length (entries cfg)"
                  and all: "\<forall>i. q \<le> i \<and> i < j \<longrightarrow> raw_user_key (entries cfg ! i) \<le> saved_key st"
                  by simp_all
                from Some have i1: "iter st1 = Some j"
                  by (simp add: st1_def iter_Seek_def)
                have lin: "linear_scan cfg True (saved_key st) q = linear_scan cfg True (saved_key st) j"
                  using j all by (intro linear_scan_skip [OF bs']) auto
                have "st' = finish cfg st1 (linear_scan cfg True (saved_key st1) j)"
                  using first i1 bs' j by (intro IH [of True 0]) (simp_all add: st1_fields)
                with lin skip show ?thesis
                  by (simp add: st1_fields) (simp add: st1_def finish_iter_Next)
              qed
            qed
          next
            case noskip: False
            show ?thesis
            proof (cases "is_tombstone e")
              case True
              have r: "reseek_or_next cfg True 0 (st\<lparr>saved_key := raw_user_key e\<rparr>)
                         = (0, iter_Next cfg (st\<lparr>saved_key := raw_user_key e\<rparr>))"
                by (simp add: reseek_or_next_def)
              with c p bb vis noskip True t step(2)
              have "loop cfg True 0 (iter_Next cfg (st\<lparr>saved_key := raw_user_key e\<rparr>)) = Some st'"
                by (auto simp add: upper_bound_test is_tombstone_def)
              from after [OF this] it bb
              have "st' = finish cfg (st\<lparr>saved_key := raw_user_key e\<rparr>)
                          (linear_scan cfg True (raw_user_key e) (Suc q))"
                by simp
              with \<open>q < length (entries cfg)\<close> bb vis noskip True show ?thesis
                by (subst linear_scan.simps) (auto simp add: e_def finish_cong)
            next
              case False
              with \<open>q < length (entries cfg)\<close> c p bb vis noskip t it step(2) show ?thesis
                by (subst linear_scan.simps)
                   (cases t; auto simp add: upper_bound_test e_def is_tombstone_def is_merge_def
                      finish_At)
            qed
          qed
        qed
      qed
    qed
  qed
qed

lemma FindNextUserEntryLoop_returns_linear:
  assumes "FindNextUserEntryLoop cfg skipping n st = Some st'" "well_formed cfg"
    "n \<le> max_skip st" "skipping \<longrightarrow> below_bound cfg (saved_key st)"
    "iter st = (if q < length (entries cfg) then Some q else None)"
  shows "st' = finish cfg st (linear_scan cfg skipping (saved_key st) q)"
  using FindNextUserEntryLoop_returns_linear_aux [OF assms(1)] assms(2-5) by blast

section \<open>The forward merge folder on well-formed streams\<close>

text \<open>
  The loop of \<^verbatim>\<open>MergeValuesNewToOld\<close> folds the merge operands of the saved key that follow
  the cursor, oldest first, over the put that ends them, and leaves the cursor within or just
  after the entries of the saved key.
\<close>

definition key_run :: "('k, 'p) config \<Rightarrow> 'k \<Rightarrow> nat \<Rightarrow> 'k entry list" where
  "key_run cfg k p = takeWhile (\<lambda>e. raw_user_key e = k) (drop p (entries cfg))"

definition cursor_at :: "('k, 'p) config \<Rightarrow> ('k, 'p) dbiter \<Rightarrow> nat \<Rightarrow> bool" where
  "cursor_at cfg st p =
     (p \<le> length (entries cfg) \<and> iter st = (if p < length (entries cfg) then Some p else None))"

lemma cursor_at_Next:
  "cursor_at cfg st p \<Longrightarrow> p < length (entries cfg) \<Longrightarrow> cursor_at cfg (iter_Next cfg st) (Suc p)"
  by (simp add: cursor_at_def iter_Next_def)

lemma key_run_end: "length (entries cfg) \<le> p \<Longrightarrow> key_run cfg k p = []"
  by (simp add: key_run_def)

lemma key_run_other:
  "p < length (entries cfg) \<Longrightarrow> raw_user_key (entries cfg ! p) \<noteq> k \<Longrightarrow> key_run cfg k p = []"
  by (simp add: key_run_def Cons_nth_drop_Suc [symmetric])

lemma key_run_same:
  "p < length (entries cfg) \<Longrightarrow> raw_user_key (entries cfg ! p) = k \<Longrightarrow>
     key_run cfg k p = entries cfg ! p # key_run cfg k (Suc p)"
  by (simp add: key_run_def Cons_nth_drop_Suc [symmetric])

lemma MergeValuesLoop_chain:
  "well_formed cfg \<Longrightarrow> cursor_at cfg st p \<Longrightarrow>
     saved_value (MergeValuesLoop cfg merge_op operands st)
       = merge_op (saved_key st)
           (merge_base (dropWhile is_merge (key_run cfg (saved_key st) p)))
           (rev (map raw_value (takeWhile is_merge (key_run cfg (saved_key st) p))) @ operands)
     \<and> (\<exists>p'. cursor_at cfg (MergeValuesLoop cfg merge_op operands st) p' \<and> p \<le> p'
            \<and> (\<forall>j. p \<le> j \<and> j < p' \<longrightarrow> raw_user_key (entries cfg ! j) = saved_key st))"
proof (induction cfg merge_op operands st arbitrary: p rule: MergeValuesLoop.induct)
  case (1 cfg merge_op operands st)
  note wf = "1.prems"(1) and at = "1.prems"(2)
  show ?case
  proof (cases "p < length (entries cfg)")
    case False
    with at have "cur cfg st = None" "length (entries cfg) \<le> p"
      by (simp_all add: cursor_at_def cur_def)
    moreover from this have "MergeValuesLoop cfg merge_op operands st
        = FullMerge merge_op (saved_key st) None operands st"
      by (subst MergeValuesLoop.simps) simp
    moreover from at have "cursor_at cfg (FullMerge merge_op (saved_key st) None operands st) p"
      by (simp add: cursor_at_def FullMerge_def)
    ultimately show ?thesis
      by (auto simp: key_run_end FullMerge_def merge_base_def)
  next
    case True
    define e where "e = entries cfg ! p"
    from True at have c: "cur cfg st = Some e"
      by (simp add: cursor_at_def cur_def e_def)
    from well_formed_parses [OF wf True] obtain t where
      t: "decode_type (raw_type e) = Some t"
      and pk: "ParseInternalKey e
        = Some \<lparr>user_key = raw_user_key e, sequence = raw_sequence e, vtype = t\<rparr>"
      by (auto simp: e_def)
    show ?thesis
    proof (cases "raw_user_key e = saved_key st")
      case False
      with True have "key_run cfg (saved_key st) p = []"
        by (simp add: key_run_other e_def)
      moreover from c pk False have "MergeValuesLoop cfg merge_op operands st
          = FullMerge merge_op (saved_key st) None operands st"
        by (subst MergeValuesLoop.simps) simp
      moreover from at have "cursor_at cfg (FullMerge merge_op (saved_key st) None operands st) p"
        by (simp add: cursor_at_def FullMerge_def)
      ultimately show ?thesis
        by (auto simp: FullMerge_def merge_base_def)
    next
      case same: True
      with True have run: "key_run cfg (saved_key st) p = e # key_run cfg (saved_key st) (Suc p)"
        by (simp add: key_run_same e_def)
      from cursor_at_Next [OF at True]
      have at': "cursor_at cfg (iter_Next cfg st) (Suc p)" .
      have one: "raw_user_key (entries cfg ! j) = saved_key st" if "p \<le> j \<and> j < Suc p" for j
        using that same by (auto simp: e_def le_less_Suc_eq)
      show ?thesis
      proof (cases t)
        case kTypeMerge
        from "1.IH"(2) [OF c pk _ _ _ wf at'] same kTypeMerge
        have IH: "saved_value (MergeValuesLoop cfg merge_op (raw_value e # operands) (iter_Next cfg st))
            = merge_op (saved_key st)
                (merge_base (dropWhile is_merge (key_run cfg (saved_key st) (Suc p))))
                (rev (map raw_value (takeWhile is_merge (key_run cfg (saved_key st) (Suc p))))
                   @ raw_value e # operands)"
          and "\<exists>p'. cursor_at cfg (MergeValuesLoop cfg merge_op (raw_value e # operands) (iter_Next cfg st)) p'
                 \<and> Suc p \<le> p'
                 \<and> (\<forall>j. Suc p \<le> j \<and> j < p' \<longrightarrow> raw_user_key (entries cfg ! j) = saved_key st)"
          by (simp_all add: iter_Next_def)
        then obtain p' where p': "cursor_at cfg (MergeValuesLoop cfg merge_op (raw_value e # operands) (iter_Next cfg st)) p'"
          "Suc p \<le> p'" "\<forall>j. Suc p \<le> j \<and> j < p' \<longrightarrow> raw_user_key (entries cfg ! j) = saved_key st"
          by blast
        have unfold: "MergeValuesLoop cfg merge_op operands st
            = MergeValuesLoop cfg merge_op (raw_value e # operands) (iter_Next cfg st)"
          using c pk same kTypeMerge by (subst MergeValuesLoop.simps) simp
        have m: "is_merge e" using t kTypeMerge by (simp add: is_merge_def)
        have "\<forall>j. p \<le> j \<and> j < p' \<longrightarrow> raw_user_key (entries cfg ! j) = saved_key st"
        proof (intro allI impI)
          fix j assume "p \<le> j \<and> j < p'"
          with p'(3) one [of j] show "raw_user_key (entries cfg ! j) = saved_key st"
            by (cases "j = p") auto
        qed
        with p'(1,2) IH show ?thesis
          unfolding unfold run using m by auto
      next
        case kTypeValue
        have "MergeValuesLoop cfg merge_op operands st
            = iter_Next cfg (FullMerge merge_op (saved_key st) (Some (raw_value e)) operands st)"
          using c pk same kTypeValue by (subst MergeValuesLoop.simps) simp
        moreover have "is_put e" "\<not> is_merge e"
          using t kTypeValue by (simp_all add: is_put_def is_merge_def)
        moreover have "cursor_at cfg
            (iter_Next cfg (FullMerge merge_op (saved_key st) (Some (raw_value e)) operands st)) (Suc p)"
          using at True by (intro cursor_at_Next) (simp_all add: cursor_at_def FullMerge_def)
        ultimately show ?thesis
          unfolding run using one
          by (auto simp: merge_base_def FullMerge_def iter_Next_def intro!: exI [of _ "Suc p"])
      next
        case kTypeDeletion
        have "MergeValuesLoop cfg merge_op operands st
            = FullMerge merge_op (saved_key st) None operands (iter_Next cfg st)"
          using c pk same kTypeDeletion by (subst MergeValuesLoop.simps) simp
        moreover have "\<not> is_put e" "\<not> is_merge e"
          using t kTypeDeletion by (simp_all add: is_put_def is_merge_def)
        moreover have "cursor_at cfg
            (FullMerge merge_op (saved_key st) None operands (iter_Next cfg st)) (Suc p)"
          using at' by (simp add: cursor_at_def FullMerge_def)
        ultimately show ?thesis
          unfolding run using one
          by (auto simp: merge_base_def FullMerge_def iter_Next_def intro!: exI [of _ "Suc p"])
      next
        case kTypeSingleDeletion
        have "MergeValuesLoop cfg merge_op operands st
            = FullMerge merge_op (saved_key st) None operands (iter_Next cfg st)"
          using c pk same kTypeSingleDeletion by (subst MergeValuesLoop.simps) simp
        moreover have "\<not> is_put e" "\<not> is_merge e"
          using t kTypeSingleDeletion by (simp_all add: is_put_def is_merge_def)
        moreover have "cursor_at cfg
            (FullMerge merge_op (saved_key st) None operands (iter_Next cfg st)) (Suc p)"
          using at' by (simp add: cursor_at_def FullMerge_def)
        ultimately show ?thesis
          unfolding run using one
          by (auto simp: merge_base_def FullMerge_def iter_Next_def intro!: exI [of _ "Suc p"])
      qed
    qed
  qed
qed

section \<open>What the forward resolver returns\<close>

text \<open>
  A forward position: the cursor stands on the put that was resolved, or within or just after
  the entries of the saved key when a merge was resolved.
\<close>

definition forward_at :: "('k::linorder, 'p) config \<Rightarrow> ('k, 'p) dbiter \<Rightarrow> bool" where
  "forward_at cfg st =
     (direction st = kForward \<and> below_bound cfg (saved_key st)
      \<and> (\<exists>p. cursor_at cfg st p
             \<and> (\<forall>j<p. raw_user_key (entries cfg ! j) \<le> saved_key st)
             \<and> (\<not> current_entry_is_merged st \<longrightarrow>
                   p < length (entries cfg) \<and> raw_user_key (entries cfg ! p) = saved_key st)))"

text \<open>
  The result of the forward resolver for the keys \<open>C\<close> it was asked about: when it is valid it
  stands on the least of these keys that has a value, with this value; it is invalid when no
  such key below the upper bound has a value, and only then when a merge operator is
  configured.
\<close>

definition resolved ::
  "('k \<Rightarrow> bool) \<Rightarrow> ('k::linorder, 'p) config \<Rightarrow> ('k, 'p) dbiter \<Rightarrow> bool" where
  "resolved C cfg st =
     (direction st = kForward
      \<and> (valid st \<longrightarrow>
            C (saved_key st) \<and> forward_at cfg st
            \<and> logical_value cfg (saved_key st) = Some (value cfg st)
            \<and> (\<forall>k. C k \<and> k < saved_key st \<longrightarrow> logical_value cfg k = None))
      \<and> ((\<forall>k. C k \<and> below_bound cfg k \<longrightarrow> logical_value cfg k = None) \<longrightarrow> \<not> valid st)
      \<and> (user_merge_operator cfg \<noteq> None \<longrightarrow> \<not> valid st \<longrightarrow>
            (\<forall>k. C k \<and> below_bound cfg k \<longrightarrow> logical_value cfg k = None)))"

lemma visible_entries_key_run:
  assumes "well_formed cfg" "q < length (entries cfg)"
    "raw_sequence (entries cfg ! q) \<le> sequence_no cfg" "invisible_before cfg q"
  shows "visible_entries cfg (raw_user_key (entries cfg ! q))
           = entries cfg ! q # key_run cfg (raw_user_key (entries cfg ! q)) (Suc q)"
  using assms(4) unfolding key_run_def
  by (intro visible_entries_from_first [OF assms(1-3)]) (simp add: invisible_before_def)

lemma finish_put:
  assumes wf: "well_formed cfg" and q: "q < length (entries cfg)"
    and vis: "raw_sequence (entries cfg ! q) \<le> sequence_no cfg"
    and before: "invisible_before cfg q"
    and live: "\<not> is_tombstone (entries cfg ! q)" and put: "\<not> is_merge (entries cfg ! q)"
    and fwd: "direction st = kForward" and fresh: "\<not> current_entry_is_merged st"
    and bb: "below_bound cfg (raw_user_key (entries cfg ! q))"
  shows "valid (finish cfg st (At q))"
    and "saved_key (finish cfg st (At q)) = raw_user_key (entries cfg ! q)"
    and "forward_at cfg (finish cfg st (At q))"
    and "logical_value cfg (raw_user_key (entries cfg ! q)) = Some (value cfg (finish cfg st (At q)))"
    and "max_skip (finish cfg st (At q)) = max_skip st"
    and "direction (finish cfg st (At q)) = kForward"
proof -
  let ?st' = "st\<lparr>iter := Some q, valid := True, saved_key := raw_user_key (entries cfg ! q)\<rparr>"
  from put have f: "finish cfg st (At q) = ?st'" by (simp add: finish_def)
  show "valid (finish cfg st (At q))"
    "saved_key (finish cfg st (At q)) = raw_user_key (entries cfg ! q)"
    "max_skip (finish cfg st (At q)) = max_skip st"
    "direction (finish cfg st (At q)) = kForward"
    using fwd by (simp_all add: f)
  have "cursor_at cfg ?st' q" using q by (simp add: cursor_at_def)
  moreover have "\<forall>j<q. raw_user_key (entries cfg ! j) \<le> raw_user_key (entries cfg ! q)"
    using well_formed_keys [OF wf _ q] by simp
  ultimately show "forward_at cfg (finish cfg st (At q))"
    using fwd fresh bb q unfolding f forward_at_def by (auto intro!: exI [of _ q])
  from well_formed_parses [OF wf q] live put have "is_put (entries cfg ! q)"
    by (auto simp: is_put_def is_merge_def is_tombstone_def) (metis ValueType.exhaust)
  with visible_entries_key_run [OF wf q vis before] q fwd fresh
  show "logical_value cfg (raw_user_key (entries cfg ! q)) = Some (value cfg (finish cfg st (At q)))"
    unfolding f by (simp add: logical_value_def value_def iter_value_def cur_def)
qed

lemma finish_merge:
  assumes wf: "well_formed cfg" and q: "q < length (entries cfg)"
    and vis: "raw_sequence (entries cfg ! q) \<le> sequence_no cfg"
    and before: "invisible_before cfg q"
    and merge: "is_merge (entries cfg ! q)"
    and op: "user_merge_operator cfg = Some merge_op"
    and fwd: "direction st = kForward"
    and bb: "below_bound cfg (raw_user_key (entries cfg ! q))"
  shows "valid (finish cfg st (At q))"
    and "saved_key (finish cfg st (At q)) = raw_user_key (entries cfg ! q)"
    and "forward_at cfg (finish cfg st (At q))"
    and "logical_value cfg (raw_user_key (entries cfg ! q)) = Some (value cfg (finish cfg st (At q)))"
    and "max_skip (finish cfg st (At q)) = max_skip st"
    and "direction (finish cfg st (At q)) = kForward"
proof -
  define k where "k = raw_user_key (entries cfg ! q)"
  define s where "s = st\<lparr>iter := Some q, saved_key := k,
                           current_entry_is_merged := True, valid := True\<rparr>"
  define st' where "st' = MergeValuesLoop cfg merge_op [raw_value (entries cfg ! q)] (iter_Next cfg s)"
  have "iter_value cfg s = raw_value (entries cfg ! q)"
    using q by (simp add: iter_value_def cur_def s_def)
  with merge op have f: "finish cfg st (At q) = st'"
    by (simp add: finish_def MergeValuesNewToOld_def st'_def s_def k_def)
  have at: "cursor_at cfg (iter_Next cfg s) (Suc q)"
    using q by (intro cursor_at_Next) (simp_all add: cursor_at_def s_def)
  have sk: "saved_key (iter_Next cfg s) = k" by (simp add: iter_Next_def s_def)
  from MergeValuesLoop_frame [of cfg merge_op "[raw_value (entries cfg ! q)]" "iter_Next cfg s"]
  have frame: "saved_key st' = k" "valid st'" "direction st' = kForward"
    "current_entry_is_merged st'" "max_skip st' = max_skip st"
    using fwd by (simp_all add: st'_def) (simp_all add: iter_Next_def s_def)
  from MergeValuesLoop_chain [OF wf at, of merge_op "[raw_value (entries cfg ! q)]"]
  obtain p' where v: "saved_value st'
        = merge_op k (merge_base (dropWhile is_merge (key_run cfg k (Suc q))))
            (rev (map raw_value (takeWhile is_merge (key_run cfg k (Suc q))))
               @ [raw_value (entries cfg ! q)])"
    and p': "cursor_at cfg st' p'" "Suc q \<le> p'"
      "\<forall>j. Suc q \<le> j \<and> j < p' \<longrightarrow> raw_user_key (entries cfg ! j) = k"
    unfolding sk st'_def by blast
  show "valid (finish cfg st (At q))"
    "saved_key (finish cfg st (At q)) = raw_user_key (entries cfg ! q)"
    "max_skip (finish cfg st (At q)) = max_skip st"
    "direction (finish cfg st (At q)) = kForward"
    using frame by (simp_all add: f k_def)
  have "raw_user_key (entries cfg ! j) \<le> k" if "j < p'" for j
  proof (cases "j \<le> q")
    case True
    from well_formed_keys [OF wf True q] show ?thesis by (simp add: k_def)
  next
    case False
    with that p'(3) show ?thesis by simp
  qed
  with p'(1) frame bb show "forward_at cfg (finish cfg st (At q))"
    unfolding f forward_at_def by (auto simp: k_def)
  from merge have "\<not> is_put (entries cfg ! q)" by (simp add: is_put_def is_merge_def)
  with visible_entries_key_run [OF wf q vis before] merge op v frame
  show "logical_value cfg (raw_user_key (entries cfg ! q)) = Some (value cfg (finish cfg st (At q)))"
    unfolding f by (simp add: logical_value_def value_def k_def)
qed

lemma finish_merge_without_operator:
  "is_merge (entries cfg ! q) \<Longrightarrow> user_merge_operator cfg = None \<Longrightarrow>
     \<not> valid (finish cfg st (At q)) \<and> direction (finish cfg st (At q)) = direction st
     \<and> max_skip (finish cfg st (At q)) = max_skip st"
  by (simp add: finish_def MergeValuesNewToOld_def)

lemma finish_resolved:
  assumes wf: "well_formed cfg" and post: "scan_post C cfg q r"
    and fwd: "direction st = kForward" and fresh: "\<not> current_entry_is_merged st"
  shows "resolved C cfg (finish cfg st r)" and "max_skip (finish cfg st r) = max_skip st"
proof -
  have "resolved C cfg (finish cfg st r) \<and> max_skip (finish cfg st r) = max_skip st"
  proof (cases r)
    case (Stopped pos saved)
    with post fwd show ?thesis
      by (simp add: scan_post_def resolved_def finish_def)
  next
    case (At q')
    with post have q': "q' < length (entries cfg)"
      and C: "C (raw_user_key (entries cfg ! q'))"
      and bb: "below_bound cfg (raw_user_key (entries cfg ! q'))"
      and vis: "raw_sequence (entries cfg ! q') \<le> sequence_no cfg"
      and live: "\<not> is_tombstone (entries cfg ! q')"
      and before: "invisible_before cfg q'"
      and least: "\<forall>k. C k \<and> k < raw_user_key (entries cfg ! q') \<longrightarrow> logical_value cfg k = None"
      by (simp_all add: scan_post_def)
    show ?thesis
    proof (cases "is_merge (entries cfg ! q')")
      case False
      note f = finish_put [OF wf q' vis before live False fwd fresh bb]
      from f C bb least show ?thesis
        unfolding At resolved_def by (simp (no_asm_simp)) metis
    next
      case merge: True
      show ?thesis
      proof (cases "user_merge_operator cfg")
        case None
        from finish_merge_without_operator [OF merge None, of st] fwd None show ?thesis
          unfolding At resolved_def by simp
      next
        case (Some merge_op)
        note f = finish_merge [OF wf q' vis before merge Some fwd bb]
        from f C bb least show ?thesis
          unfolding At resolved_def by (simp (no_asm_simp)) metis
      qed
    qed
  qed
  then show "resolved C cfg (finish cfg st r)" and "max_skip (finish cfg st r) = max_skip st"
    by simp_all
qed

lemma FindNextUserEntry_resolved:
  assumes wf: "well_formed cfg"
    and pos: "iter st = (if q < length (entries cfg) then Some q else None)"
    and inv: "scan_inv C cfg skipping (saved_key st) q"
    and bs: "skipping \<longrightarrow> below_bound cfg (saved_key st)"
    and fwd: "direction st = kForward"
  shows "FindNextUserEntry cfg skipping st = Some st' \<Longrightarrow>
           resolved C cfg st' \<and> max_skip st' = max_skip st"
    and "0 < max_skip st \<Longrightarrow> FindNextUserEntry cfg skipping st \<noteq> None"
proof -
  let ?s = "st\<lparr>current_entry_is_merged := False\<rparr>"
  have s: "iter ?s = (if q < length (entries cfg) then Some q else None)"
    "skipping \<longrightarrow> below_bound cfg (saved_key ?s)" "direction ?s = kForward"
    "\<not> current_entry_is_merged ?s" "saved_key ?s = saved_key st" "max_skip ?s = max_skip st"
    using pos bs fwd by simp_all
  from linear_scan_spec [OF wf inv]
  have post: "scan_post C cfg q (linear_scan cfg skipping (saved_key ?s) q)" by simp
  note fin = finish_resolved [OF wf post s(3,4)]
  {
    assume "FindNextUserEntry cfg skipping st = Some st'"
    then have "FindNextUserEntryLoop cfg skipping 0 ?s = Some st'"
      by (simp add: FindNextUserEntry_def)
    from FindNextUserEntryLoop_returns_linear [OF this wf _ s(2,1)] fin
    show "resolved C cfg st' \<and> max_skip st' = max_skip st" by simp
  }
  {
    assume "0 < max_skip st"
    with FindNextUserEntryLoop_linear [OF wf _ _ s(1,2), of 0]
    show "FindNextUserEntry cfg skipping st \<noteq> None"
      by (simp add: FindNextUserEntry_def)
  }
qed

section \<open>Positioning and stepping forward on well-formed streams\<close>

lemma no_entry_no_value:
  assumes wf: "well_formed cfg" and p: "p \<le> length (entries cfg)"
    and behind: "\<And>j. j < p \<Longrightarrow> raw_user_key (entries cfg ! j) = k
                    \<Longrightarrow> sequence_no cfg < raw_sequence (entries cfg ! j)"
    and ahead: "passed cfg p k"
  shows "logical_value cfg k = None"
proof (rule logical_value_no_visible)
  fix j assume j: "j < length (entries cfg)" "raw_user_key (entries cfg ! j) = k"
  show "sequence_no cfg < raw_sequence (entries cfg ! j)"
  proof (cases "j < p")
    case True
    with behind j(2) show ?thesis by simp
  next
    case False
    with j(1) have "p \<le> j" "p < length (entries cfg)" by simp_all
    with well_formed_keys [OF wf this(1) j(1)] ahead j(2) show ?thesis
      by (simp add: passed_def)
  qed
qed

lemma scan_inv_behind:
  assumes wf: "well_formed cfg" and p: "p \<le> length (entries cfg)"
    and behind: "\<forall>j<p. raw_user_key (entries cfg ! j) \<le> saved"
  shows "scan_inv (\<lambda>k. saved < k) cfg True saved p"
  unfolding scan_inv_def
proof (intro conjI allI impI)
  fix k assume "saved < k \<and> (\<not> pending True saved k \<or> passed cfg p k)"
  then have k: "saved < k" "passed cfg p k" by (auto simp: pending_def)
  from behind k(1) show "logical_value cfg k = None"
    by (intro no_entry_no_value [OF wf p _ k(2)]) auto
next
  assume "pending True saved (raw_user_key (entries cfg ! p))"
  with behind show "invisible_before cfg p"
    by (auto simp: invisible_before_def pending_def)
next
  fix k assume "pending True saved k \<and> \<not> passed cfg p k"
  then show "saved < k" by (simp add: pending_def)
qed

lemma scan_inv_start:
  assumes wf: "well_formed cfg"
  shows "scan_inv (\<lambda>k. True) cfg False saved 0"
  unfolding scan_inv_def
proof (intro conjI allI impI)
  fix k assume "True \<and> (\<not> pending False saved k \<or> passed cfg 0 k)"
  then have "passed cfg 0 k" by (simp add: pending_def)
  then show "logical_value cfg k = None"
    by (intro no_entry_no_value [OF wf, of 0]) auto
qed (simp_all add: invisible_before_def)

text \<open>Where \<^verbatim>\<open>Seek\<close> positions the source.\<close>

definition seek_position :: "('k::linorder, 'p) config \<Rightarrow> 'k \<Rightarrow> nat" where
  "seek_position cfg target =
     (case first_index (seek_target_le (target, sequence_no cfg, kValueTypeForSeek)) (entries cfg) of
        None \<Rightarrow> length (entries cfg)
      | Some j \<Rightarrow> j)"

lemma seek_position:
  assumes wf: "well_formed cfg"
  shows "seek_position cfg target \<le> length (entries cfg)"
    and "i < seek_position cfg target \<Longrightarrow>
           raw_user_key (entries cfg ! i) < target
           \<or> (raw_user_key (entries cfg ! i) = target \<and> sequence_no cfg < raw_sequence (entries cfg ! i))"
    and "seek_position cfg target < length (entries cfg) \<Longrightarrow>
           target \<le> raw_user_key (entries cfg ! seek_position cfg target)"
proof -
  let ?P = "seek_target_le (target, sequence_no cfg, kValueTypeForSeek)"
  have small: "raw_user_key (entries cfg ! i) < target
           \<or> (raw_user_key (entries cfg ! i) = target \<and> sequence_no cfg < raw_sequence (entries cfg ! i))"
    if "i < length (entries cfg)" "\<not> ?P (entries cfg ! i)" for i
  proof -
    from well_formed_parses [OF wf that(1)] obtain t where
      "decode_type (raw_type (entries cfg ! i)) = Some t" by blast
    then have "raw_type (entries cfg ! i) \<le> 7"
      by (auto simp: decode_type_def split: if_splits)
    with that(2) show ?thesis
      by (auto simp: seek_target_le_def kValueTypeForSeek_def type_byte_def)
  qed
  show "seek_position cfg target \<le> length (entries cfg)"
    by (auto simp: seek_position_def split: option.splits dest: first_index_Some)
  show "raw_user_key (entries cfg ! i) < target
           \<or> (raw_user_key (entries cfg ! i) = target \<and> sequence_no cfg < raw_sequence (entries cfg ! i))"
    if "i < seek_position cfg target"
  proof (cases "first_index ?P (entries cfg)")
    case None
    with that have i: "i < length (entries cfg)" by (simp add: seek_position_def)
    from small [OF i first_index_None [OF None i]] show ?thesis .
  next
    case (Some j)
    with that have "i < j" by (simp add: seek_position_def)
    with first_index_Some [OF Some] have i: "i < length (entries cfg)" "\<not> ?P (entries cfg ! i)"
      by auto
    from small [OF i] show ?thesis .
  qed
  show "target \<le> raw_user_key (entries cfg ! seek_position cfg target)"
    if "seek_position cfg target < length (entries cfg)"
  proof (cases "first_index ?P (entries cfg)")
    case None
    with that show ?thesis by (simp add: seek_position_def)
  next
    case (Some j)
    with first_index_Some [OF Some] show ?thesis
      by (auto simp: seek_position_def seek_target_le_def)
  qed
qed

lemma packed_sequence_fits: "s \<le> kMaxSequenceNumber \<Longrightarrow> packed_sequence s = s"
  by (simp add: packed_sequence_def kMaxSequenceNumber_def)

lemma iter_Seek_position:
  "sequence_no cfg \<le> kMaxSequenceNumber \<Longrightarrow>
   iter (iter_Seek cfg (target, packed_sequence (sequence_no cfg), kValueTypeForSeek) st)
     = (if seek_position cfg target < length (entries cfg)
        then Some (seek_position cfg target) else None)"
  by (auto simp: iter_Seek_def seek_position_def packed_sequence_fits
      split: option.splits dest: first_index_Some)

lemma scan_inv_seek:
  assumes wf: "well_formed cfg"
  shows "scan_inv (\<lambda>k. target \<le> k) cfg False saved (seek_position cfg target)"
  unfolding scan_inv_def
proof (intro conjI allI impI)
  fix k assume "target \<le> k \<and> (\<not> pending False saved k \<or> passed cfg (seek_position cfg target) k)"
  then have k: "target \<le> k" "passed cfg (seek_position cfg target) k"
    by (auto simp: pending_def)
  show "logical_value cfg k = None"
  proof (rule no_entry_no_value [OF wf seek_position(1) [OF wf] _ k(2)])
    fix j assume "j < seek_position cfg target" "raw_user_key (entries cfg ! j) = k"
    with seek_position(2) [OF wf, of j target] k(1)
    show "sequence_no cfg < raw_sequence (entries cfg ! j)" by auto
  qed
next
  assume q: "seek_position cfg target < length (entries cfg)"
  show "invisible_before cfg (seek_position cfg target)"
    unfolding invisible_before_def
  proof (intro allI impI)
    fix j assume "j < seek_position cfg target"
      "raw_user_key (entries cfg ! j) = raw_user_key (entries cfg ! seek_position cfg target)"
    with seek_position(2) [OF wf, of j target] seek_position(3) [OF wf q]
    show "sequence_no cfg < raw_sequence (entries cfg ! j)" by auto
  qed
next
  fix k assume "pending False saved k \<and> \<not> passed cfg (seek_position cfg target) k"
  then have "seek_position cfg target < length (entries cfg)"
    "raw_user_key (entries cfg ! seek_position cfg target) \<le> k"
    by (auto simp: passed_def)
  with seek_position(3) [OF wf this(1)] show "target \<le> k" by simp
qed

text \<open>
  \<^verbatim>\<open>Seek\<close>: the result for the keys at or after the target; the direction is only set when
  the source has an entry at or after the target.
\<close>

lemma Seek_resolved:
  assumes wf: "well_formed cfg" and fits: "sequence_no cfg \<le> kMaxSequenceNumber"
  shows "Seek cfg target st = Some st' \<Longrightarrow>
           (valid st' \<longrightarrow> resolved (\<lambda>k. target \<le> k) cfg st')
           \<and> ((\<forall>k. target \<le> k \<and> below_bound cfg k \<longrightarrow> logical_value cfg k = None) \<longrightarrow> \<not> valid st')
           \<and> (user_merge_operator cfg \<noteq> None \<longrightarrow> \<not> valid st' \<longrightarrow>
                 (\<forall>k. target \<le> k \<and> below_bound cfg k \<longrightarrow> logical_value cfg k = None))"
    and "0 < max_skip st \<Longrightarrow> Seek cfg target st \<noteq> None"
proof -
  define st1 where
    "st1 = iter_Seek cfg (target, packed_sequence (sequence_no cfg), kValueTypeForSeek)
             (st\<lparr>saved_key := target\<rparr>)"
  define st2 where "st2 = st1\<lparr>direction := kForward, saved_value := []\<rparr>"
  define lock where "lock = (\<lambda>s :: ('a, 'b) dbiter. case prefix_extractor cfg of
                  None \<Rightarrow> s
                | Some transform \<Rightarrow>
                    if valid s \<and> prefix_same_as_start cfg then s\<lparr>prefix_start := transform target\<rparr>
                    else s)"
  have unfold: "Seek cfg target st
      = map_option lock (if iter_Valid cfg st1 then FindNextUserEntry cfg False st2
                         else Some (st1\<lparr>valid := False\<rparr>))"
    by (simp add: Seek_def st1_def st2_def lock_def Let_def)
  have pos1: "iter st1 = (if seek_position cfg target < length (entries cfg)
                          then Some (seek_position cfg target) else None)"
    unfolding st1_def by (rule iter_Seek_position [OF fits])
  then have pos2: "iter st2 = (if seek_position cfg target < length (entries cfg)
                          then Some (seek_position cfg target) else None)"
    by (simp add: st2_def)
  have st2: "direction st2 = kForward" "max_skip st2 = max_skip st"
    by (simp_all add: st2_def st1_def iter_Seek_def)
  note res = FindNextUserEntry_resolved [OF wf pos2 scan_inv_seek [OF wf] _ st2(1)]
  have lock: "valid (lock s) = valid s" "saved_key (lock s) = saved_key s"
    "direction (lock s) = direction s" "value cfg (lock s) = value cfg s"
    "forward_at cfg (lock s) = forward_at cfg s" for s
    by (auto simp: lock_def value_def iter_value_def cur_def forward_at_def cursor_at_def
        split: option.splits)
  have resolved_lock: "resolved C cfg (lock s) = resolved C cfg s" for C s
    by (simp add: resolved_def lock)
  {
    assume ret: "Seek cfg target st = Some st'"
    show "(valid st' \<longrightarrow> resolved (\<lambda>k. target \<le> k) cfg st')
           \<and> ((\<forall>k. target \<le> k \<and> below_bound cfg k \<longrightarrow> logical_value cfg k = None) \<longrightarrow> \<not> valid st')
           \<and> (user_merge_operator cfg \<noteq> None \<longrightarrow> \<not> valid st' \<longrightarrow>
                 (\<forall>k. target \<le> k \<and> below_bound cfg k \<longrightarrow> logical_value cfg k = None))"
    proof (cases "iter_Valid cfg st1")
      case True
      with ret unfold obtain s where s: "FindNextUserEntry cfg False st2 = Some s" "st' = lock s"
        by auto
      from res(1) [OF _ s(1)] have "resolved (\<lambda>k. target \<le> k) cfg st'"
        by (simp add: s(2) resolved_lock)
      then show ?thesis by (auto simp: resolved_def)
    next
      case False
      with ret unfold have st': "st' = lock (st1\<lparr>valid := False\<rparr>)" by auto
      from False pos1 have "length (entries cfg) \<le> seek_position cfg target"
        by (auto simp: iter_Valid_def cur_def split: if_splits)
      then have "passed cfg (seek_position cfg target) k" for k
        by (simp add: passed_def)
      with scan_inv_seek [OF wf, of target target]
      have "\<forall>k. target \<le> k \<longrightarrow> logical_value cfg k = None"
        by (simp add: scan_inv_def)
      then show ?thesis by (simp add: st' lock)
    qed
  }
  {
    assume "0 < max_skip st"
    with res(2) st2(2) show "Seek cfg target st \<noteq> None"
      by (simp add: unfold)
  }
qed

lemma prefix_check_off: "\<not> prefix_same_as_start cfg \<Longrightarrow> prefix_check cfg = id"
  by (rule ext) (simp add: prefix_check_def split: option.splits)

lemma set_prefix_start_off: "\<not> prefix_same_as_start cfg \<Longrightarrow> set_prefix_start cfg = id"
  by (rule ext) (simp add: set_prefix_start_def split: option.splits)

lemma SeekToFirst_resolved:
  assumes wf: "well_formed cfg" and off: "\<not> prefix_same_as_start cfg"
  shows "SeekToFirst cfg st = Some st' \<Longrightarrow>
           resolved (\<lambda>k. True) cfg st' \<and> (0 < max_skip st \<longrightarrow> 0 < max_skip st')"
    and "0 < max_skip st \<Longrightarrow> SeekToFirst cfg st \<noteq> None"
proof -
  define st0 where
    "st0 = st\<lparr>max_skip := (case prefix_extractor cfg of None \<Rightarrow> max_skip st | Some _ \<Rightarrow> uint64_max),
              direction := kForward, saved_value := []\<rparr>"
  define st1 where "st1 = iter_SeekToFirst cfg st0"
  have unfold: "SeekToFirst cfg st
      = (if iter_Valid cfg st1 then FindNextUserEntry cfg False st1 else Some (st1\<lparr>valid := False\<rparr>))"
    using off
    by (simp add: SeekToFirst_def st1_def st0_def Let_def set_prefix_start_off option.map_id)
  have pos: "iter st1 = (if 0 < length (entries cfg) then Some 0 else None)"
    by (simp add: st1_def iter_SeekToFirst_def)
  have st1: "direction st1 = kForward" "0 < max_skip st \<Longrightarrow> 0 < max_skip st1"
    by (simp_all add: st1_def st0_def iter_SeekToFirst_def uint64_max_def split: option.splits)
  note res = FindNextUserEntry_resolved [OF wf pos scan_inv_start [OF wf] _ st1(1)]
  {
    assume ret: "SeekToFirst cfg st = Some st'"
    show "resolved (\<lambda>k. True) cfg st' \<and> (0 < max_skip st \<longrightarrow> 0 < max_skip st')"
    proof (cases "iter_Valid cfg st1")
      case True
      with ret unfold have "FindNextUserEntry cfg False st1 = Some st'" by simp
      from res(1) [OF _ this] st1(2) show ?thesis by simp
    next
      case False
      with ret unfold have st': "st' = st1\<lparr>valid := False\<rparr>" by simp
      from False pos have "passed cfg 0 k" for k
        by (auto simp: iter_Valid_def cur_def passed_def split: if_splits)
      with scan_inv_start [OF wf, of "saved_key st1"]
      have "\<forall>k. logical_value cfg k = None"
        by (simp add: scan_inv_def)
      with st1 show ?thesis by (simp add: st' resolved_def)
    qed
  }
  {
    assume "0 < max_skip st"
    with res(2) st1(2) show "SeekToFirst cfg st \<noteq> None"
      by (simp add: unfold)
  }
qed

lemma Next_resolved:
  assumes wf: "well_formed cfg" and off: "\<not> prefix_same_as_start cfg"
    and at: "forward_at cfg st"
  shows "Next cfg st = Some st' \<Longrightarrow>
           resolved (\<lambda>k. saved_key st < k) cfg st' \<and> max_skip st' = max_skip st"
    and "0 < max_skip st \<Longrightarrow> Next cfg st \<noteq> None"
proof -
  define st1 where
    "st1 = (if iter_Valid cfg st \<and> \<not> current_entry_is_merged st then iter_Next cfg st else st)"
  from at have fwd: "direction st = kForward" and bs: "below_bound cfg (saved_key st)"
    by (simp_all add: forward_at_def)
  have unfold: "Next cfg st
      = (if \<not> iter_Valid cfg st1 then Some (st1\<lparr>valid := False\<rparr>)
         else FindNextUserEntry cfg True st1)"
    using fwd off
    by (simp add: Next_def st1_def Let_def prefix_check_off option.map_id)
  from at obtain p where p: "cursor_at cfg st p"
    "\<forall>j<p. raw_user_key (entries cfg ! j) \<le> saved_key st"
    "\<not> current_entry_is_merged st \<longrightarrow>
       p < length (entries cfg) \<and> raw_user_key (entries cfg ! p) = saved_key st"
    by (auto simp: forward_at_def)
  define p1 where "p1 = (if current_entry_is_merged st then p else Suc p)"
  have st1: "saved_key st1 = saved_key st" "direction st1 = kForward" "max_skip st1 = max_skip st"
    using fwd by (simp_all add: st1_def iter_Next_def)
  have at1: "cursor_at cfg st1 p1"
  proof (cases "current_entry_is_merged st")
    case True
    with p(1) show ?thesis by (simp add: st1_def p1_def)
  next
    case False
    with p(1,3) have "iter_Valid cfg st" by (simp add: iter_Valid_def cur_def cursor_at_def)
    with False p(3) cursor_at_Next [OF p(1)] show ?thesis by (simp add: st1_def p1_def)
  qed
  have behind: "\<forall>j<p1. raw_user_key (entries cfg ! j) \<le> saved_key st"
  proof (cases "current_entry_is_merged st")
    case True
    with p(2) show ?thesis by (simp add: p1_def)
  next
    case False
    with p(3) have q: "p < length (entries cfg)" "raw_user_key (entries cfg ! p) = saved_key st"
      by simp_all
    with well_formed_keys [OF wf _ q(1)] False show ?thesis
      by (auto simp: p1_def less_Suc_eq_le)
  qed
  from at1 have pos: "iter st1 = (if p1 < length (entries cfg) then Some p1 else None)"
    and p1: "p1 \<le> length (entries cfg)"
    by (simp_all add: cursor_at_def)
  note inv = scan_inv_behind [OF wf p1 behind]
  note res = FindNextUserEntry_resolved [OF wf pos, of "\<lambda>k. saved_key st < k" True,
      unfolded st1, OF inv _ refl]
  {
    assume ret: "Next cfg st = Some st'"
    show "resolved (\<lambda>k. saved_key st < k) cfg st' \<and> max_skip st' = max_skip st"
    proof (cases "iter_Valid cfg st1")
      case True
      with ret unfold have "FindNextUserEntry cfg True st1 = Some st'" by simp
      from res(1) [OF _ this] bs show ?thesis by simp
    next
      case False
      with ret unfold have st': "st' = st1\<lparr>valid := False\<rparr>" by simp
      from False pos have "passed cfg p1 k" for k
        by (auto simp: iter_Valid_def cur_def passed_def split: if_splits)
      with inv have "\<forall>k. saved_key st < k \<longrightarrow> logical_value cfg k = None"
        by (simp add: scan_inv_def)
      with st1 show ?thesis by (simp add: st' resolved_def)
    qed
  }
  {
    assume "0 < max_skip st"
    with res(2) bs show "Next cfg st \<noteq> None"
      by (simp add: unfold)
  }
qed

section \<open>Seek on well-formed streams\<close>

text \<open>
  On a well-formed stream, when \<^verbatim>\<open>Seek(target)\<close> returns a valid iterator, \<^verbatim>\<open>key()\<close> is the
  smallest user key at or after the target whose visible entries resolve to a value, below
  the upper bound, and \<^verbatim>\<open>value()\<close> is that value: every key from the target up to \<^verbatim>\<open>key()\<close>
  has no value under the snapshot (its newest visible entry is a tombstone, or it has no
  visible entry). When no key at or after the target and below the upper bound has a value,
  the iterator is invalid; with a merge operator configured it is invalid only then.
  \<^verbatim>\<open>Seek\<close> returns for every reseek threshold of at least 1.
\<close>

lemma Seek_finds_least_key_with_value:
  assumes "well_formed cfg" and "sequence_no cfg \<le> kMaxSequenceNumber"
  shows "(0 < max_skip st \<longrightarrow> Seek cfg target st \<noteq> None)
       \<and> (\<forall>st'. Seek cfg target st = Some st' \<longrightarrow>
            (valid st' \<longrightarrow>
               target \<le> key st' \<and> below_bound cfg (key st')
               \<and> logical_value cfg (key st') = Some (value cfg st')
               \<and> (\<forall>k. target \<le> k \<and> k < key st' \<longrightarrow> logical_value cfg k = None))
            \<and> ((\<forall>k. target \<le> k \<and> below_bound cfg k \<longrightarrow> logical_value cfg k = None)
                 \<longrightarrow> \<not> valid st')
            \<and> (user_merge_operator cfg \<noteq> None \<longrightarrow> \<not> valid st' \<longrightarrow>
                 (\<forall>k. target \<le> k \<and> below_bound cfg k \<longrightarrow> logical_value cfg k = None)))"
proof (intro conjI allI impI)
  assume "0 < max_skip st"
  then show "Seek cfg target st \<noteq> None" by (rule Seek_resolved(2) [OF assms])
next
  fix st' assume ret: "Seek cfg target st = Some st'"
  note res = Seek_resolved(1) [OF assms ret]
  {
    assume "valid st'"
    with res have r: "resolved (\<lambda>k. target \<le> k) cfg st'" by simp
    with \<open>valid st'\<close> show "target \<le> key st'" "below_bound cfg (key st')"
      "logical_value cfg (key st') = Some (value cfg st')"
      by (simp_all add: resolved_def forward_at_def key_def)
    fix k assume "target \<le> k \<and> k < key st'"
    with r \<open>valid st'\<close> show "logical_value cfg k = None"
      by (simp add: resolved_def key_def)
  }
  {
    assume "\<forall>k. target \<le> k \<and> below_bound cfg k \<longrightarrow> logical_value cfg k = None"
    with res show "\<not> valid st'" by blast
  }
  {
    fix k
    assume "user_merge_operator cfg \<noteq> None" "\<not> valid st'" "target \<le> k \<and> below_bound cfg k"
    with res show "logical_value cfg k = None" by blast
  }
qed

text \<open>
  Three keys at snapshot 3: key 1 is a merge operand over a put, key 2 is deleted, key 3 has
  an invisible put over a visible one.
\<close>

definition layered_config :: "(nat, nat) config" where
  "layered_config =
     plain_config [merge 1 3 ''m'', put 1 1 ''a'', delete 2 2, put 2 1 ''b'',
                   put 3 9 ''z'', put 3 2 ''c''] 3"

lemma layered_well_formed: "well_formed layered_config"
  by (simp add: layered_config_def well_formed_def stream_order_def fixture_defs
      ParseInternalKey_def decode_type_def)

lemma layered_seek:
  "Seek layered_config 2 (new_iterator 8)
     = Some ((new_iterator 8)\<lparr>iter := Some 5, valid := True, saved_key := 3\<rparr>)"
  by (simp add: layered_config_def fixture_defs source_defs dbiter_defs loop_simps)

section \<open>The full forward scan on well-formed streams\<close>

text \<open>The number of entries after the saved key: it decreases with every step.\<close>

definition remaining :: "('k::linorder, 'p) config \<Rightarrow> ('k, 'p) dbiter \<Rightarrow> nat" where
  "remaining cfg st = length (filter (\<lambda>e. saved_key st < raw_user_key e) (entries cfg))"

lemma remaining_less:
  assumes "saved_key st < saved_key st'" "logical_value cfg (saved_key st') \<noteq> None"
  shows "remaining cfg st' < remaining cfg st"
proof -
  from assms(2) have "visible_entries cfg (saved_key st') \<noteq> []"
    by (auto simp: logical_value_def)
  then obtain e where e: "e \<in> set (entries cfg)" "raw_user_key e = saved_key st'"
    by (auto simp: visible_entries_def filter_empty_conv)
  let ?near = "filter (\<lambda>e. saved_key st < raw_user_key e) (entries cfg)"
  from assms(1) have "filter (\<lambda>e. saved_key st' < raw_user_key e) (entries cfg)
      = filter (\<lambda>e. saved_key st' < raw_user_key e) ?near"
    by (auto intro!: filter_cong)
  moreover from e assms(1) have "e \<in> set ?near" "\<not> saved_key st' < raw_user_key e"
    by simp_all
  then have "length (filter (\<lambda>e. saved_key st' < raw_user_key e) ?near) < length ?near"
    by (rule length_filter_less)
  ultimately show ?thesis by (simp add: remaining_def)
qed

lemma collect_forward_invalid: "\<not> valid st \<Longrightarrow> collect_forward cfg st = Some ([], st)"
  by (subst collect_forward.simps) simp

lemma collect_forward_valid:
  "valid st \<Longrightarrow> Next cfg st = Some st' \<Longrightarrow>
     collect_forward cfg st
       = Option.bind (collect_forward cfg st')
           (\<lambda>(kvs, fin). Some ((key st, value cfg st) # kvs, fin))"
  by (subst collect_forward.simps) simp

lemma collect_forward_no_step:
  "valid st \<Longrightarrow> Next cfg st = None \<Longrightarrow> collect_forward cfg st = None"
  by (subst collect_forward.simps) simp

text \<open>
  From a forward position the caller's loop yields the keys at or after the current key that
  have a value, in ascending order, each with its value.
\<close>

lemma collect_forward_correct:
  assumes wf: "well_formed cfg" and op: "user_merge_operator cfg = Some merge_op"
    and off: "\<not> prefix_same_as_start cfg"
  shows "(valid st \<longrightarrow> forward_at cfg st \<and> logical_value cfg (saved_key st) = Some (value cfg st)) \<Longrightarrow>
         (0 < max_skip st \<longrightarrow> collect_forward cfg st \<noteq> None)
         \<and> (\<forall>kvs fin. collect_forward cfg st = Some (kvs, fin) \<longrightarrow>
               sorted_wrt (<) (map fst kvs)
               \<and> (\<forall>k v. (k, v) \<in> set kvs \<longleftrightarrow>
                      valid st \<and> saved_key st \<le> k \<and> below_bound cfg k
                      \<and> logical_value cfg k = Some v))"
proof (induction "remaining cfg st" arbitrary: st rule: less_induct)
  case less
  show ?case
  proof (cases "valid st")
    case False
    then show ?thesis by (simp add: collect_forward_invalid)
  next
    case True
    with less.prems have at: "forward_at cfg st"
      and here: "logical_value cfg (saved_key st) = Some (value cfg st)"
      by simp_all
    from at have bb: "below_bound cfg (saved_key st)" by (simp add: forward_at_def)
    note step = Next_resolved [OF wf off at]
    have rest: "(0 < max_skip st \<longrightarrow> collect_forward cfg st' \<noteq> None)
         \<and> (\<forall>kvs fin. collect_forward cfg st' = Some (kvs, fin) \<longrightarrow>
               sorted_wrt (<) (map fst kvs)
               \<and> (\<forall>k v. (k, v) \<in> set kvs \<longleftrightarrow>
                      saved_key st < k \<and> below_bound cfg k \<and> logical_value cfg k = Some v))"
      if ret: "Next cfg st = Some st'" for st'
    proof -
      from step(1) [OF ret] have r: "resolved (\<lambda>k. saved_key st < k) cfg st'"
        and m: "max_skip st' = max_skip st" by simp_all
      show ?thesis
      proof (cases "valid st'")
        case False
        with r op have "\<forall>k. saved_key st < k \<and> below_bound cfg k \<longrightarrow> logical_value cfg k = None"
          by (simp add: resolved_def)
        with False show ?thesis by (auto simp: collect_forward_invalid)
      next
        case v: True
        with r have r': "saved_key st < saved_key st'" "forward_at cfg st'"
          "logical_value cfg (saved_key st') = Some (value cfg st')"
          "\<forall>k. saved_key st < k \<and> k < saved_key st' \<longrightarrow> logical_value cfg k = None"
          by (simp_all add: resolved_def)
        from remaining_less [OF r'(1)] r'(3) have "remaining cfg st' < remaining cfg st" by simp
        from less.hyps [OF this] r'(2,3) m v
        have IH: "0 < max_skip st \<longrightarrow> collect_forward cfg st' \<noteq> None"
          "\<And>kvs fin. collect_forward cfg st' = Some (kvs, fin) \<Longrightarrow>
               sorted_wrt (<) (map fst kvs)
               \<and> (\<forall>k v. (k, v) \<in> set kvs \<longleftrightarrow>
                      saved_key st' \<le> k \<and> below_bound cfg k \<and> logical_value cfg k = Some v)"
          by simp_all
        have "saved_key st' \<le> k \<and> below_bound cfg k \<and> logical_value cfg k = Some v
              \<longleftrightarrow> saved_key st < k \<and> below_bound cfg k \<and> logical_value cfg k = Some v" for k v
          using r'(1,4) by (metis le_less_trans not_le option.distinct(1))
        with IH show ?thesis by simp
      qed
    qed
    show ?thesis
    proof (intro conjI allI impI)
      assume "0 < max_skip st"
      with step(2) obtain st' where ret: "Next cfg st = Some st'" by auto
      with rest [OF ret] \<open>0 < max_skip st\<close> True show "collect_forward cfg st \<noteq> None"
        by (auto simp: collect_forward_valid)
    next
      fix kvs fin assume c: "collect_forward cfg st = Some (kvs, fin)"
      with True collect_forward_no_step [of st cfg] obtain st' where ret: "Next cfg st = Some st'"
        by (cases "Next cfg st") auto
      with c True obtain kvs' where kvs': "collect_forward cfg st' = Some (kvs', fin)"
        and kvs: "kvs = (key st, value cfg st) # kvs'"
        by (auto simp: collect_forward_valid split: bind_splits)
      from rest [OF ret] kvs' have s: "sorted_wrt (<) (map fst kvs')"
        and mem: "\<And>k v. (k, v) \<in> set kvs' \<longleftrightarrow>
                      saved_key st < k \<and> below_bound cfg k \<and> logical_value cfg k = Some v"
        by simp_all
      from s mem show "sorted_wrt (<) (map fst kvs)"
        by (auto simp: kvs key_def)
      fix k v
      show "(k, v) \<in> set kvs \<longleftrightarrow>
              valid st \<and> saved_key st \<le> k \<and> below_bound cfg k \<and> logical_value cfg k = Some v"
        using True here bb mem [of k v] by (auto simp: kvs key_def)
    qed
  qed
qed

text \<open>
  On a stream sorted by user key ascending and version descending, with a merge operator
  configured and no prefix lock, the full forward scan yields the keys in strictly ascending
  order, so each at most once, and it yields the pair of a key and a value exactly when the
  key is below the upper bound and the value is the logical value of the key under the
  snapshot: the newest entry with a version at most the snapshot is a put, or a merge chain
  that resolves to the value. A key whose newest visible entry is a tombstone and a key with
  no visible entry have no logical value and are not yielded. The scan returns for every
  reseek threshold of at least 1.
\<close>

lemma forward_scan_yields_the_logical_entries:
  assumes "well_formed cfg" and "user_merge_operator cfg = Some merge_op"
    and "\<not> prefix_same_as_start cfg"
  shows "(0 < max_skip st \<longrightarrow> forward_scan cfg st \<noteq> None)
       \<and> (\<forall>kvs fin. forward_scan cfg st = Some (kvs, fin) \<longrightarrow>
             sorted_wrt (<) (map fst kvs)
             \<and> (\<forall>k v. (k, v) \<in> set kvs \<longleftrightarrow>
                    below_bound cfg k \<and> logical_value cfg k = Some v))"
proof -
  note first = SeekToFirst_resolved [OF assms(1,3)]
  have scan: "(0 < max_skip st \<longrightarrow> collect_forward cfg st' \<noteq> None)
         \<and> (\<forall>kvs fin. collect_forward cfg st' = Some (kvs, fin) \<longrightarrow>
               sorted_wrt (<) (map fst kvs)
               \<and> (\<forall>k v. (k, v) \<in> set kvs \<longleftrightarrow>
                      below_bound cfg k \<and> logical_value cfg k = Some v))"
    if ret: "SeekToFirst cfg st = Some st'" for st'
  proof -
    from first(1) [OF ret] have r: "resolved (\<lambda>k. True) cfg st'"
      and m: "0 < max_skip st \<longrightarrow> 0 < max_skip st'" by simp_all
    from r have "valid st' \<longrightarrow>
        forward_at cfg st' \<and> logical_value cfg (saved_key st') = Some (value cfg st')"
      by (simp add: resolved_def)
    note c = collect_forward_correct [OF assms this]
    have "valid st' \<and> saved_key st' \<le> k \<and> below_bound cfg k \<and> logical_value cfg k = Some v
          \<longleftrightarrow> below_bound cfg k \<and> logical_value cfg k = Some v" for k v
    proof (cases "valid st'")
      case True
      with r have "\<forall>k. k < saved_key st' \<longrightarrow> logical_value cfg k = None"
        by (simp add: resolved_def)
      with True show ?thesis by (metis not_le option.distinct(1))
    next
      case False
      with r assms(2) have "\<forall>k. below_bound cfg k \<longrightarrow> logical_value cfg k = None"
        by (simp add: resolved_def)
      with False show ?thesis by auto
    qed
    with c m show ?thesis by simp
  qed
  show ?thesis
  proof (cases "SeekToFirst cfg st")
    case None
    with first(2) [of st] show ?thesis by (auto simp: forward_scan_def)
  next
    case (Some st')
    with scan [OF Some] show ?thesis by (simp add: forward_scan_def)
  qed
qed

lemma layered_scan:
  "forward_scan layered_config (new_iterator 8)
     = Some ([(1, ''am''), (3, ''c'')],
             (new_iterator 8)\<lparr>saved_key := 3, saved_value := ''am'',
                                full_merge_calls := [(1, Some ''a'', [''m''])]\<rparr>)"
  by (simp add: layered_config_def fixture_defs source_defs dbiter_defs loop_simps)

section \<open>The calls without the prefix lock return\<close>

text \<open>
  On a well-formed stream and with a reseek threshold of at least 1 the calls without the lock
  do return: \<^verbatim>\<open>SeekToFirst\<close> and \<^verbatim>\<open>Seek\<close> return, and so does every \<^verbatim>\<open>Next\<close> on a valid iterator,
  until the iterator is invalid.
\<close>

lemma well_formed_unlocked: "well_formed (unlocked cfg) = well_formed cfg"
  by (simp add: well_formed_def unlocked_fields)

lemma next_steps_return:
  assumes wf: "well_formed cfg" and off: "\<not> prefix_same_as_start cfg"
  shows "0 < max_skip st \<Longrightarrow> (valid st \<longrightarrow> forward_at cfg st) \<Longrightarrow>
           (\<exists>kvs stop. next_steps cfg n st = Some (kvs, stop))
           \<or> (\<exists>m<n. \<exists>kvs stop. next_steps cfg m st = Some (kvs, stop) \<and> \<not> valid stop)"
proof (induction n arbitrary: st)
  case 0
  show ?case by simp
next
  case (Suc n)
  show ?case
  proof (cases "valid st")
    case False
    have "next_steps cfg 0 st = Some ([], st)" by simp
    with False show ?thesis by blast
  next
    case True
    with Suc.prems have at: "forward_at cfg st" by simp
    from Next_resolved(2) [OF wf off at Suc.prems(1)] obtain st' where n: "Next cfg st = Some st'"
      by blast
    from Next_resolved(1) [OF wf off at n] have r: "resolved (\<lambda>k. saved_key st < k) cfg st'"
      and m: "max_skip st' = max_skip st"
      by simp_all
    from r have "valid st' \<longrightarrow> forward_at cfg st'" by (simp add: resolved_def)
    from Suc.IH [OF _ this] m Suc.prems(1)
    consider (all) kvs stop where "next_steps cfg n st' = Some (kvs, stop)"
      | (ended) m kvs stop where "m < n" "next_steps cfg m st' = Some (kvs, stop)" "\<not> valid stop"
      by auto
    then show ?thesis
    proof cases
      case all
      with True n show ?thesis by simp
    next
      case ended
      with True n have "next_steps cfg (Suc m) st = Some ((key st, value cfg st) # kvs, stop)"
        by simp
      with ended(1,3) show ?thesis by (meson Suc_less_eq)
    qed
  qed
qed

lemma unlocked_steps_return:
  assumes "well_formed cfg" and "0 < max_skip st"
  shows "\<exists>first. SeekToFirst (unlocked cfg) st = Some first
           \<and> ((\<exists>kvs stop. next_steps (unlocked cfg) n first = Some (kvs, stop))
              \<or> (\<exists>m<n. \<exists>kvs stop. next_steps (unlocked cfg) m first = Some (kvs, stop)
                                   \<and> \<not> valid stop))"
proof -
  from assms(1) have wf: "well_formed (unlocked cfg)" by (simp add: well_formed_unlocked)
  have off: "\<not> prefix_same_as_start (unlocked cfg)" by (simp add: unlocked_fields)
  from SeekToFirst_resolved(2) [OF wf off assms(2)] obtain first
    where f: "SeekToFirst (unlocked cfg) st = Some first" by blast
  from SeekToFirst_resolved(1) [OF wf off f] assms(2)
  have "valid first \<longrightarrow> forward_at (unlocked cfg) first" "0 < max_skip first"
    by (simp_all add: resolved_def)
  from next_steps_return [OF wf off this(2,1)] f show ?thesis by simp
qed

lemma unlocked_Seek_returns:
  assumes "well_formed cfg" and "0 < max_skip st" and "sequence_no cfg \<le> kMaxSequenceNumber"
  shows "\<exists>first. Seek (unlocked cfg) target st = Some first"
proof -
  from assms(1) have wf: "well_formed (unlocked cfg)" by (simp add: well_formed_unlocked)
  from assms(3) have fits: "sequence_no (unlocked cfg) \<le> kMaxSequenceNumber"
    by (simp add: unlocked_fields)
  from Seek_resolved(2) [OF wf fits assms(2)] show ?thesis by blast
qed


section \<open>Where the cursor stands, forward\<close>

text \<open>
  The cursor stands at or before the entries of a key, or strictly before them; a cursor
  that ran out of entries counts as both.
\<close>

definition at_or_before :: "('k::linorder, 'p) config \<Rightarrow> ('k, 'p) dbiter \<Rightarrow> 'k \<Rightarrow> bool" where
  "at_or_before cfg st k = (case cur cfg st of None \<Rightarrow> True | Some e \<Rightarrow> raw_user_key e \<le> k)"

definition before :: "('k::linorder, 'p) config \<Rightarrow> ('k, 'p) dbiter \<Rightarrow> 'k \<Rightarrow> bool" where
  "before cfg st k = (case cur cfg st of None \<Rightarrow> True | Some e \<Rightarrow> raw_user_key e < k)"

text \<open>
  What every operation leaves behind in a valid iterator: going forward, the cursor stands on
  the entry of the current key unless the value was merged; going backward, it stands before
  the entries of the current key.
\<close>

definition positioned :: "('k::linorder, 'p) config \<Rightarrow> ('k, 'p) dbiter \<Rightarrow> bool" where
  "positioned cfg st =
     (case direction st of
        kForward \<Rightarrow> current_entry_is_merged st \<or> at_or_before cfg st (saved_key st)
      | kReverse \<Rightarrow> before cfg st (saved_key st))"

lemma FindParseableKey_frame:
  "FindParseableKey cfg d st = (r, st') \<Longrightarrow>
     saved_key st' = saved_key st \<and> direction st' = direction st \<and> valid st' = valid st
     \<and> current_entry_is_merged st' = current_entry_is_merged st \<and> max_skip st' = max_skip st"
proof (induction cfg d st rule: FindParseableKey.induct)
  case (1 cfg d st)
  show ?case
  proof (cases "cur cfg st")
    case None
    with 1(2) show ?thesis by (simp add: FindParseableKey.simps [of cfg _ st])
  next
    case (Some e)
    show ?thesis
    proof (cases "ParseInternalKey e")
      case (Some ik)
      with \<open>cur cfg st = Some e\<close> 1(2) show ?thesis
        by (simp add: FindParseableKey.simps [of cfg _ st])
    next
      case None
      with \<open>cur cfg st = Some e\<close> 1(2) 1(1) [OF \<open>cur cfg st = Some e\<close> None]
      show ?thesis
        by (simp add: FindParseableKey.simps [of cfg _ st] iter_Prev_def iter_Next_def
            split: if_splits)
    qed
  qed
qed

lemma FindNextUserKeyLoop_frame:
  "saved_key (FindNextUserKeyLoop cfg ikey st) = saved_key st
   \<and> direction (FindNextUserKeyLoop cfg ikey st) = direction st"
proof (induction cfg ikey st rule: FindNextUserKeyLoop.induct)
  case (1 cfg ikey st)
  show ?case
  proof (cases "user_key ikey \<noteq> saved_key st")
    case False
    then show ?thesis by (subst (1 2) FindNextUserKeyLoop.simps) simp
  next
    case True
    obtain r st' where f: "FindParseableKey cfg kForward (iter_Next cfg st) = (r, st')"
      by (cases "FindParseableKey cfg kForward (iter_Next cfg st)")
    from FindParseableKey_frame [OF f]
    have fr: "saved_key st' = saved_key st" "direction st' = direction st"
      by (simp_all add: iter_Next_def)
    show ?thesis
    proof (cases r)
      case None
      with True f fr show ?thesis by (subst (1 2) FindNextUserKeyLoop.simps) simp
    next
      case (Some ikey')
      with True f fr 1 [OF True f [symmetric, unfolded Some] refl] show ?thesis
        by (subst (1 2) FindNextUserKeyLoop.simps) simp
    qed
  qed
qed

lemma FindNextUserKey_frame:
  "saved_key (FindNextUserKey cfg st) = saved_key st
   \<and> direction (FindNextUserKey cfg st) = direction st"
proof (cases "FindParseableKey cfg kForward st")
  case (Pair r st')
  from FindParseableKey_frame [OF Pair] Pair show ?thesis
    by (auto simp: FindNextUserKey_def FindNextUserKeyLoop_frame split: option.splits)
qed

text \<open>
  The forward resolver, for every stream: when it returns a valid iterator while skipping,
  the key is greater than the key it started from, and the cursor stands on the entry of the
  key unless the value was merged.
\<close>

lemma FindNextUserEntryLoop_ascends_aux:
  "FindNextUserEntryLoop cfg skipping n st = Some st' \<Longrightarrow>
     direction st' = direction st
     \<and> (valid st' \<longrightarrow>
          (skipping \<longrightarrow> saved_key st < saved_key st')
          \<and> (current_entry_is_merged st' \<or> at_or_before cfg st' (saved_key st')))"
proof (induct rule: FindNextUserEntryLoop.raw_induct [rotated, consumes 1, case_names step])
  case (step loop cfg skipping n st st')
  show ?case
  proof (cases "cur cfg st")
    case None
    with step(2) show ?thesis by auto
  next
    case (Some e)
    show ?thesis
    proof (cases "ParseInternalKey e")
      case None
      obtain n1 st1 where r: "reseek_or_next cfg skipping n (st\<lparr>status := Corruption\<rparr>) = (n1, st1)"
        by (cases "reseek_or_next cfg skipping n (st\<lparr>status := Corruption\<rparr>)")
      with step(2) Some None have "loop cfg skipping n1 st1 = Some st'" by simp
      from step(1) [OF this] reseek_or_next_frame [OF r] show ?thesis by simp
    next
      case (Some ikey)
      note parsed = \<open>cur cfg st = Some e\<close> Some
      from Some have uk: "user_key ikey = raw_user_key e"
        by (auto simp: ParseInternalKey_def split: option.splits)
      show ?thesis
      proof (cases "case iterate_upper_bound cfg of None \<Rightarrow> False | Some ub \<Rightarrow> ub \<le> user_key ikey")
        case True
        with step(2) parsed show ?thesis by auto
      next
        case bb: False
        show ?thesis
        proof (cases "sequence ikey \<le> sequence_no cfg")
          case False
          obtain n1 st1 where r: "reseek_or_next cfg skipping n st = (n1, st1)"
            by (cases "reseek_or_next cfg skipping n st")
          with step(2) parsed bb False have "loop cfg skipping n1 st1 = Some st'" by simp
          from step(1) [OF this] reseek_or_next_frame [OF r] show ?thesis by simp
        next
          case vis: True
          show ?thesis
          proof (cases "skipping \<and> user_key ikey \<le> saved_key st")
            case True
            obtain n1 st1 where r: "reseek_or_next cfg skipping ((n + 1) mod 2 ^ 64) st = (n1, st1)"
              by (cases "reseek_or_next cfg skipping ((n + 1) mod 2 ^ 64) st")
            with step(2) parsed bb vis True have "loop cfg skipping n1 st1 = Some st'" by simp
            from step(1) [OF this] reseek_or_next_frame [OF r] show ?thesis by simp
          next
            case noskip: False
            then have gt: "skipping \<longrightarrow> saved_key st < user_key ikey" by auto
            show ?thesis
            proof (cases "vtype ikey")
              case kTypeValue
              with step(2) parsed bb vis noskip
              have "st' = st\<lparr>valid := True, saved_key := user_key ikey\<rparr>" by simp
              with gt uk \<open>cur cfg st = Some e\<close> show ?thesis
                by (simp add: at_or_before_def cur_def)
            next
              case kTypeMerge
              with step(2) parsed bb vis noskip
              have "st' = MergeValuesNewToOld cfg
                            (st\<lparr>saved_key := user_key ikey,
                                current_entry_is_merged := True, valid := True\<rparr>)" by simp
              with gt MergeValuesNewToOld_frame [of cfg "st\<lparr>saved_key := user_key ikey,
                                current_entry_is_merged := True, valid := True\<rparr>"]
              show ?thesis by (simp add: MergeValuesNewToOld_saved_key)
            next
              case kTypeDeletion
              obtain n1 st1 where r: "reseek_or_next cfg True 0 (st\<lparr>saved_key := user_key ikey\<rparr>) = (n1, st1)"
                by (cases "reseek_or_next cfg True 0 (st\<lparr>saved_key := user_key ikey\<rparr>)")
              with step(2) parsed bb vis noskip kTypeDeletion
              have "loop cfg True n1 st1 = Some st'" by simp
              from step(1) [OF this] reseek_or_next_frame [OF r] gt show ?thesis by auto
            next
              case kTypeSingleDeletion
              obtain n1 st1 where r: "reseek_or_next cfg True 0 (st\<lparr>saved_key := user_key ikey\<rparr>) = (n1, st1)"
                by (cases "reseek_or_next cfg True 0 (st\<lparr>saved_key := user_key ikey\<rparr>)")
              with step(2) parsed bb vis noskip kTypeSingleDeletion
              have "loop cfg True n1 st1 = Some st'" by simp
              from step(1) [OF this] reseek_or_next_frame [OF r] gt show ?thesis by auto
            qed
          qed
        qed
      qed
    qed
  qed
qed

lemma FindNextUserEntry_ascends:
  assumes "FindNextUserEntry cfg skipping st = Some st'"
  shows "direction st' = direction st"
    and "valid st' \<Longrightarrow> skipping \<Longrightarrow> saved_key st < saved_key st'"
    and "valid st' \<Longrightarrow> direction st = kForward \<Longrightarrow> positioned cfg st'"
  using FindNextUserEntryLoop_ascends_aux [OF assms [unfolded FindNextUserEntry_def]]
  by (simp_all add: positioned_def)

lemma prefix_check_cases:
  "prefix_check cfg st = st \<or> prefix_check cfg st = st\<lparr>valid := False\<rparr>"
  by (simp add: prefix_check_def split: option.splits)

text \<open>\<^verbatim>\<open>Next\<close>, in either direction and for every stream.\<close>

lemma Next_ascends:
  assumes "Next cfg st = Some st'" "valid st'"
  shows "saved_key st < saved_key st'" and "direction st' = kForward" and "positioned cfg st'"
proof -
  define st1 where
    "st1 = (if direction st = kReverse then
           (let s = (FindNextUserKey cfg st)\<lparr>direction := kForward\<rparr>
            in if \<not> iter_Valid cfg s then iter_SeekToFirst cfg s else s)
         else if iter_Valid cfg st \<and> \<not> current_entry_is_merged st then iter_Next cfg st
         else st)"
  have st1: "saved_key st1 = saved_key st" "direction st1 = kForward"
    using FindNextUserKey_frame [of cfg st]
    by (auto simp: st1_def Let_def iter_SeekToFirst_def iter_Next_def intro: Direction.exhaust)
  from assms have "iter_Valid cfg st1"
    by (auto simp: Next_def st1_def [symmetric] split: if_splits)
  with assms(1) obtain s where s: "FindNextUserEntry cfg True st1 = Some s" "st' = prefix_check cfg s"
    by (auto simp: Next_def st1_def [symmetric])
  from prefix_check_cases [of cfg s] assms(2) s(2) have "st' = s" by auto
  with FindNextUserEntry_ascends [OF s(1)] assms(2) st1
  show "saved_key st < saved_key st'" and "direction st' = kForward" and "positioned cfg st'"
    by simp_all
qed

lemma Seek_positioned:
  assumes "Seek cfg target st = Some st'" "valid st'"
  shows "direction st' = kForward" and "positioned cfg st'"
proof -
  define st1 where
    "st1 = iter_Seek cfg (target, packed_sequence (sequence_no cfg), kValueTypeForSeek)
             (st\<lparr>saved_key := target\<rparr>)"
  define st2 where "st2 = st1\<lparr>direction := kForward, saved_value := []\<rparr>"
  define lock where "lock = (\<lambda>s :: ('a, 'b) dbiter. case prefix_extractor cfg of
                  None \<Rightarrow> s
                | Some transform \<Rightarrow>
                    if valid s \<and> prefix_same_as_start cfg then s\<lparr>prefix_start := transform target\<rparr>
                    else s)"
  have unfold: "Seek cfg target st
      = map_option lock (if iter_Valid cfg st1 then FindNextUserEntry cfg False st2
                         else Some (st1\<lparr>valid := False\<rparr>))"
    by (simp add: Seek_def st1_def st2_def lock_def Let_def)
  have lock: "valid (lock s) = valid s" "direction (lock s) = direction s"
    "positioned cfg (lock s) = positioned cfg s" for s
    by (auto simp: lock_def positioned_def at_or_before_def before_def cur_def
        split: option.splits Direction.splits)
  from assms unfold lock(1) obtain s where s: "FindNextUserEntry cfg False st2 = Some s" "st' = lock s"
    by (auto split: if_splits)
  from FindNextUserEntry_ascends(1,3) [OF s(1)] assms(2) s(2)
  show "direction st' = kForward" and "positioned cfg st'"
    by (simp_all add: lock st2_def)
qed

lemma set_prefix_start_frame_positioned:
  "valid (set_prefix_start cfg s) = valid s" "direction (set_prefix_start cfg s) = direction s"
  "saved_key (set_prefix_start cfg s) = saved_key s"
  "positioned cfg (set_prefix_start cfg s) = positioned cfg s"
  by (auto simp: set_prefix_start_def positioned_def at_or_before_def before_def cur_def
      split: option.splits Direction.splits)

lemma SeekToFirst_positioned:
  assumes "SeekToFirst cfg st = Some st'" "valid st'"
  shows "direction st' = kForward" and "positioned cfg st'"
proof -
  define st1 where "st1 = iter_SeekToFirst cfg
                  (st\<lparr>max_skip := (case prefix_extractor cfg of None \<Rightarrow> max_skip st
                                    | Some _ \<Rightarrow> uint64_max),
                      direction := kForward, saved_value := []\<rparr>)"
  have unfold: "SeekToFirst cfg st
      = map_option (set_prefix_start cfg)
          (if iter_Valid cfg st1 then FindNextUserEntry cfg False st1
           else Some (st1\<lparr>valid := False\<rparr>))"
    by (simp add: SeekToFirst_def st1_def Let_def)
  from assms unfold obtain s where s: "FindNextUserEntry cfg False st1 = Some s"
    "st' = set_prefix_start cfg s"
    by (auto simp: set_prefix_start_frame_positioned split: if_splits)
  have "direction st1 = kForward" by (simp add: st1_def iter_SeekToFirst_def)
  with FindNextUserEntry_ascends(1,3) [OF s(1)] assms(2) s(2)
  show "direction st' = kForward" and "positioned cfg st'"
    by (simp_all add: set_prefix_start_frame_positioned)
qed

section \<open>Where the cursor stands, backward\<close>

text \<open>
  The versions of the entries fit the 56 bits that the internal key format has for them.
\<close>

definition versions_fit :: "('k, 'p) config \<Rightarrow> bool" where
  "versions_fit cfg = list_all (\<lambda>e. raw_sequence e \<le> kMaxSequenceNumber) (entries cfg)"

definition parsed_cur :: "('k, 'p) config \<Rightarrow> ('k, 'p) dbiter \<Rightarrow> 'k ParsedInternalKey option" where
  "parsed_cur cfg st = (case cur cfg st of None \<Rightarrow> None | Some e \<Rightarrow> ParseInternalKey e)"

lemma cur_in_entries: "cur cfg st = Some e \<Longrightarrow> e \<in> set (entries cfg)"
  by (auto simp: cur_def split: option.splits if_splits)

lemma cur_parses:
  assumes "well_formed cfg" "cur cfg st = Some e"
  shows "\<exists>t. decode_type (raw_type e) = Some t
       \<and> ParseInternalKey e
           = Some \<lparr>user_key = raw_user_key e, sequence = raw_sequence e, vtype = t\<rparr>"
proof -
  from assms(2) obtain i where "i < length (entries cfg)" "e = entries cfg ! i"
    by (auto simp: cur_def split: option.splits if_splits)
  with well_formed_parses [OF assms(1) this(1)] show ?thesis by simp
qed

lemma FindParseableKey_well_formed:
  assumes "well_formed cfg"
  shows "FindParseableKey cfg d st = (parsed_cur cfg st, st)"
proof (cases "cur cfg st")
  case None
  then show ?thesis by (subst FindParseableKey.simps) (simp add: parsed_cur_def)
next
  case (Some e)
  with cur_parses [OF assms Some] show ?thesis
    by (subst FindParseableKey.simps) (auto simp: parsed_cur_def)
qed

lemma parsed_cur_Some:
  "parsed_cur cfg st = Some ikey \<Longrightarrow>
     \<exists>e. cur cfg st = Some e \<and> user_key ikey = raw_user_key e \<and> sequence ikey = raw_sequence e
        \<and> decode_type (raw_type e) = Some (vtype ikey)"
  by (auto simp: parsed_cur_def ParseInternalKey_def split: option.splits)

lemma parsed_cur_None:
  "well_formed cfg \<Longrightarrow> parsed_cur cfg st = None \<Longrightarrow> cur cfg st = None"
  by (cases "cur cfg st") (auto simp: parsed_cur_def dest: cur_parses)

lemma before_imp_at_or_before: "before cfg st k \<Longrightarrow> at_or_before cfg st k"
  by (auto simp: before_def at_or_before_def split: option.splits)

lemma at_or_before_Prev:
  assumes wf: "well_formed cfg" and at: "at_or_before cfg st k"
  shows "at_or_before cfg (iter_Prev cfg st) k"
proof (cases "cur cfg (iter_Prev cfg st)")
  case None
  then show ?thesis by (simp add: at_or_before_def)
next
  case (Some e')
  then obtain i where i: "iter st = Some i" "i \<noteq> 0" "i < length (entries cfg)"
    "e' = entries cfg ! (i - 1)"
    by (auto simp: cur_def iter_Prev_def split: option.splits if_splits)
  with at have "raw_user_key (entries cfg ! i) \<le> k"
    by (simp add: at_or_before_def cur_def)
  with well_formed_keys [OF wf _ i(3), of "i - 1"] i Some show ?thesis
    by (simp add: at_or_before_def)
qed

lemma reseek_Prev_before:
  assumes wf: "well_formed cfg" and fit: "versions_fit cfg"
  shows "before cfg (iter_Prev cfg (iter_Seek cfg (k, kMaxSequenceNumber, kValueTypeForSeek) st)) k"
proof (cases "cur cfg (iter_Prev cfg (iter_Seek cfg (k, kMaxSequenceNumber, kValueTypeForSeek) st))")
  case None
  then show ?thesis by (simp add: before_def)
next
  case (Some e')
  let ?P = "seek_target_le (k, kMaxSequenceNumber, kValueTypeForSeek)"
  from Some obtain j where j: "first_index ?P (entries cfg) = Some j" "j \<noteq> 0"
    "e' = entries cfg ! (j - 1)"
    by (auto simp: cur_def iter_Prev_def iter_Seek_def split: option.splits if_splits)
  from first_index_Some [OF j(1)] j(2) have lt: "j - 1 < length (entries cfg)"
    and np: "\<not> ?P (entries cfg ! (j - 1))"
    by auto
  from well_formed_parses [OF wf lt] have "raw_type (entries cfg ! (j - 1)) \<le> 7"
    by (auto simp: decode_type_def split: if_splits)
  moreover from fit lt have "raw_sequence (entries cfg ! (j - 1)) \<le> kMaxSequenceNumber"
    by (simp add: versions_fit_def list_all_length)
  ultimately have "raw_user_key (entries cfg ! (j - 1)) < k"
    using np by (auto simp: seek_target_le_def kValueTypeForSeek_def type_byte_def)
  with Some j(3) show ?thesis by (simp add: before_def)
qed

text \<open>
  \<^verbatim>\<open>FindPrevUserKey\<close>: when it returns, the cursor stands before the entries of the saved
  key.
\<close>

lemma FindPrevUserKeyLoop_before_aux:
  "FindPrevUserKeyLoop cfg n ikey st = Some st' \<Longrightarrow>
     well_formed cfg \<longrightarrow> versions_fit cfg \<longrightarrow> parsed_cur cfg st = Some ikey \<longrightarrow>
     at_or_before cfg st (saved_key st) \<longrightarrow>
       before cfg st' (saved_key st) \<and> saved_key st' = saved_key st
       \<and> direction st' = direction st \<and> valid st' = valid st"
proof (induct rule: FindPrevUserKeyLoop.raw_induct [rotated, consumes 1, case_names step])
  case (step loop cfg n ikey st st')
  show ?case
  proof (intro impI)
    assume wf: "well_formed cfg" and fit: "versions_fit cfg"
      and pc: "parsed_cur cfg st = Some ikey" and at: "at_or_before cfg st (saved_key st)"
    from parsed_cur_Some [OF pc] obtain e where e: "cur cfg st = Some e"
      "user_key ikey = raw_user_key e"
      by blast
    with at have le: "user_key ikey \<le> saved_key st" by (simp add: at_or_before_def)
    show "before cfg st' (saved_key st) \<and> saved_key st' = saved_key st
            \<and> direction st' = direction st \<and> valid st' = valid st"
    proof (cases "user_key ikey = saved_key st")
      case False
      with le step(2) have "st' = st" by (auto split: if_splits)
      with False le e show ?thesis by (simp add: before_def)
    next
      case True
      define r where "r = (if max_skip st \<le> n then
                    (0, iter_Seek cfg (saved_key st, kMaxSequenceNumber, kValueTypeForSeek) st)
                  else ((n + 1) mod 2 ^ 64, st))"
      define st2 where "st2 = iter_Prev cfg (snd r)"
      have fr: "saved_key st2 = saved_key st" "direction st2 = direction st" "valid st2 = valid st"
        by (simp_all add: st2_def r_def iter_Prev_def iter_Seek_def)
      have at2: "at_or_before cfg st2 (saved_key st)"
      proof (cases "max_skip st \<le> n")
        case True
        with reseek_Prev_before [OF wf fit, of "saved_key st" st] show ?thesis
          by (simp add: st2_def r_def before_imp_at_or_before)
      next
        case False
        with at_or_before_Prev [OF wf at] show ?thesis by (simp add: st2_def r_def)
      qed
      from True step(2) have run: "(case parsed_cur cfg st2 of
                None \<Rightarrow> Some st2
              | Some ikey' \<Rightarrow> loop cfg (fst r) ikey' st2) = Some st'"
        by (simp add: FindParseableKey_well_formed [OF wf] st2_def r_def split: if_splits
            cong: option.case_cong)
      show ?thesis
      proof (cases "parsed_cur cfg st2")
        case None
        with run have "st' = st2" by simp
        with parsed_cur_None [OF wf None] fr show ?thesis by (simp add: before_def)
      next
        case (Some ikey')
        with run have "loop cfg (fst r) ikey' st2 = Some st'" by simp
        from step(1) [OF this] wf fit Some at2 fr show ?thesis by simp
      qed
    qed
  qed
qed

lemma FindPrevUserKey_before:
  assumes wf: "well_formed cfg" and fit: "versions_fit cfg"
    and at: "at_or_before cfg st (saved_key st)"
    and ret: "FindPrevUserKey cfg st = Some st'"
  shows "before cfg st' (saved_key st)" and "saved_key st' = saved_key st"
    and "direction st' = direction st" and "valid st' = valid st"
proof -
  have "before cfg st' (saved_key st) \<and> saved_key st' = saved_key st
          \<and> direction st' = direction st \<and> valid st' = valid st"
  proof (cases "parsed_cur cfg st")
    case None
    with ret have "st' = st"
      by (simp add: FindPrevUserKey_def FindParseableKey_well_formed [OF wf] split: if_splits)
    with parsed_cur_None [OF wf None] show ?thesis by (simp add: before_def)
  next
    case (Some ikey)
    with parsed_cur_Some [OF Some] ret have "FindPrevUserKeyLoop cfg 0 ikey st = Some st'"
      by (auto simp: FindPrevUserKey_def FindParseableKey_well_formed [OF wf] iter_Valid_def)
    from FindPrevUserKeyLoop_before_aux [OF this] wf fit Some at show ?thesis by simp
  qed
  then show "before cfg st' (saved_key st)" and "saved_key st' = saved_key st"
    and "direction st' = direction st" and "valid st' = valid st"
    by simp_all
qed

section \<open>The forward skip loop with the reseek threshold 0 (C1, C9)\<close>

text \<open>
  The reseek of \<^verbatim>\<open>FindNextUserEntryInternal\<close> positions the source at the first entry at or
  after the internal key of the saved key with sequence number 0 and type deletion, ``the
  last occurrence of our current key'', and the loop goes on from there without a step. With
  the threshold 0 the loop reseeks at every entry that it skips. So when the cursor stands
  on a visible entry of the saved key that is this last occurrence, a deletion with the
  sequence number 0, the reseek leaves the cursor where it is and the loop does not return.
\<close>

lemma FindNextUserEntryLoop_stuck_aux:
  "FindNextUserEntryLoop cfg skipping n st = Some st' \<Longrightarrow>
     skipping \<longrightarrow> n = 0 \<longrightarrow> max_skip st = 0 \<longrightarrow>
     (\<exists>e ikey. cur cfg st = Some e \<and> ParseInternalKey e = Some ikey
        \<and> \<not> (case iterate_upper_bound cfg of None \<Rightarrow> False | Some ub \<Rightarrow> ub \<le> user_key ikey)
        \<and> sequence ikey \<le> sequence_no cfg \<and> user_key ikey \<le> saved_key st) \<longrightarrow>
     iter_Seek cfg (saved_key st, 0, kTypeDeletion) st = st \<longrightarrow> False"
proof (induct rule: FindNextUserEntryLoop.raw_induct [rotated, consumes 1, case_names step])
  case (step loop cfg skipping n st st')
  show ?case
  proof (intro impI)
    assume sk: skipping and n: "n = 0" and m: "max_skip st = 0"
      and here: "\<exists>e ikey. cur cfg st = Some e \<and> ParseInternalKey e = Some ikey
        \<and> \<not> (case iterate_upper_bound cfg of None \<Rightarrow> False | Some ub \<Rightarrow> ub \<le> user_key ikey)
        \<and> sequence ikey \<le> sequence_no cfg \<and> user_key ikey \<le> saved_key st"
      and same: "iter_Seek cfg (saved_key st, 0, kTypeDeletion) st = st"
    from here obtain e ikey where e: "cur cfg st = Some e" "ParseInternalKey e = Some ikey"
      "\<not> (case iterate_upper_bound cfg of None \<Rightarrow> False | Some ub \<Rightarrow> ub \<le> user_key ikey)"
      "sequence ikey \<le> sequence_no cfg" "user_key ikey \<le> saved_key st"
      by blast
    from m same have "reseek_or_next cfg True ((0 + 1) mod 2 ^ 64) st = (0, st)"
      by (simp add: reseek_or_next_def)
    with step(2) sk n e have "loop cfg True 0 st = Some st'" by simp
    from step(1) [OF this] m here same show False by simp blast
  qed
qed

lemma FindNextUserEntryLoop_stuck:
  assumes "max_skip st = 0" and "cur cfg st = Some e" and "ParseInternalKey e = Some ikey"
    and "\<not> (case iterate_upper_bound cfg of None \<Rightarrow> False | Some ub \<Rightarrow> ub \<le> user_key ikey)"
    and "sequence ikey \<le> sequence_no cfg" and "user_key ikey \<le> saved_key st"
    and "iter_Seek cfg (saved_key st, 0, kTypeDeletion) st = st"
  shows "FindNextUserEntryLoop cfg True 0 st = None"
proof (cases "FindNextUserEntryLoop cfg True 0 st")
  case (Some st')
  from FindNextUserEntryLoop_stuck_aux [OF Some] assms show ?thesis by blast
qed simp

text \<open>
  Key 1 was put at version 1 and deleted at version 0, key 2 was put at version 1; the
  snapshot is 1. Key 1 has the value of its put and key 2 has a value.
\<close>

definition stuck_after_put :: "(nat, nat) config" where
  "stuck_after_put = plain_config [put 1 1 ''a'', delete 1 0, put 2 1 ''b''] 1"

lemma stuck_after_put_first:
  "SeekToFirst stuck_after_put (new_iterator 0)
     = Some ((new_iterator 0)\<lparr>iter := Some 0, valid := True, saved_key := 1\<rparr>)"
  by (simp add: stuck_after_put_def fixture_defs source_defs dbiter_defs loop_simps)

lemma stuck_after_put_loop:
  "FindNextUserEntryLoop stuck_after_put True 0
     ((new_iterator 0)\<lparr>iter := Some 1, valid := True, saved_key := 1\<rparr>) = None"
  by (rule FindNextUserEntryLoop_stuck [where e = "delete 1 0"
        and ikey = "\<lparr>user_key = 1, sequence = 0, vtype = kTypeDeletion\<rparr>"])
     (simp_all add: stuck_after_put_def fixture_defs source_defs)

lemma stuck_after_put_next:
  "Next stuck_after_put ((new_iterator 0)\<lparr>iter := Some 0, valid := True, saved_key := 1\<rparr>) = None"
proof -
  have "FindNextUserEntry stuck_after_put True
          ((new_iterator 0)\<lparr>iter := Some 1, valid := True, saved_key := 1\<rparr>) = None"
    using stuck_after_put_loop by (simp add: FindNextUserEntry_def new_iterator_def)
  then show ?thesis
    by (simp add: Next_def Let_def stuck_after_put_def fixture_defs cursor_defs)
qed

text \<open>
  C1 fails on the code: on this sorted stream with the reseek threshold 0, \<^verbatim>\<open>SeekToFirst\<close>
  yields key 1 and the first \<^verbatim>\<open>Next\<close> does not return, so the full forward scan does not
  return and key 2 is never yielded, although its newest visible entry is a put. With the
  threshold 1 the scan yields both keys.
\<close>

theorem C1_forward_scan_does_not_return_at_threshold_0:
  "forward_scan stuck_after_put (new_iterator 0) = None
   \<and> map_option fst (forward_scan stuck_after_put (new_iterator 1))
       = Some [(1, ''a''), (2, ''b'')]"
proof
  have "collect_forward stuck_after_put
          ((new_iterator 0)\<lparr>iter := Some 0, valid := True, saved_key := 1\<rparr>) = None"
    using stuck_after_put_next by (subst collect_forward.simps) simp
  then show "forward_scan stuck_after_put (new_iterator 0) = None"
    by (simp add: forward_scan_def stuck_after_put_first)
  show "map_option fst (forward_scan stuck_after_put (new_iterator 1))
          = Some [(1, ''a''), (2, ''b'')]"
    by (simp add: stuck_after_put_def fixture_defs source_defs dbiter_defs loop_simps)
qed

text \<open>
  Key 1 was deleted at versions 5 and 0, key 2 was put at version 1; the snapshot is 5. Key 2
  is the least key at or after 1 that has a value.
\<close>

definition stuck_after_delete :: "(nat, nat) config" where
  "stuck_after_delete = plain_config [delete 1 5, delete 1 0, put 2 1 ''b''] 5"

lemma stuck_after_delete_loop:
  "FindNextUserEntryLoop stuck_after_delete True 0
     ((new_iterator 0)\<lparr>iter := Some 1, saved_key := 1\<rparr>) = None"
  by (rule FindNextUserEntryLoop_stuck [where e = "delete 1 0"
        and ikey = "\<lparr>user_key = 1, sequence = 0, vtype = kTypeDeletion\<rparr>"])
     (simp_all add: stuck_after_delete_def fixture_defs source_defs)

text \<open>
  C9 fails on the code: on this sorted stream with the reseek threshold 0, \<^verbatim>\<open>Seek(1)\<close> does
  not return, so it never stands on key 2. With the threshold 1 it returns a valid iterator
  on key 2 with the value of its put.
\<close>

theorem C9_seek_does_not_return_at_threshold_0:
  "Seek stuck_after_delete 1 (new_iterator 0) = None
   \<and> map_option (\<lambda>st. (valid st, key st, value stuck_after_delete st))
       (Seek stuck_after_delete 1 (new_iterator 1)) = Some (True, 2, ''b'')"
proof
  have "FindNextUserEntryLoop stuck_after_delete False 0
          ((new_iterator 0)\<lparr>iter := Some 0, saved_key := 1\<rparr>) = None"
    using stuck_after_delete_loop
    by (subst FindNextUserEntryLoop.simps)
       (simp add: stuck_after_delete_def fixture_defs source_defs reseek_or_next_def)
  then have "FindNextUserEntry stuck_after_delete False
          ((new_iterator 0)\<lparr>iter := Some 0, saved_key := 1\<rparr>) = None"
    by (simp add: FindNextUserEntry_def new_iterator_def)
  then show "Seek stuck_after_delete 1 (new_iterator 0) = None"
    by (simp add: Seek_def Let_def stuck_after_delete_def fixture_defs cursor_defs)
  show "map_option (\<lambda>st. (valid st, key st, value stuck_after_delete st))
          (Seek stuck_after_delete 1 (new_iterator 1)) = Some (True, 2, ''b'')"
    by (simp add: stuck_after_delete_def fixture_defs source_defs dbiter_defs loop_simps)
qed


section \<open>A malformed entry between two keys (C8)\<close>

















end
